theory Spec2Isabelle
  imports Complex_Main "HOL-Library.Log_Nat"
begin

section \<open>Python values\<close>

text \<open>
  The exceptions the module can raise, and results as sums: \<open>Inl\<close> is a raised exception.
\<close>

datatype py_error = ValueError | ZeroDivisionError | OverflowError

definition and_then :: "py_error + 'a \<Rightarrow> ('a \<Rightarrow> py_error + 'b) \<Rightarrow> py_error + 'b" where
  "and_then m f = (case m of Inl e \<Rightarrow> Inl e | Inr x \<Rightarrow> f x)"

text \<open>
  A Python \<open>float\<close> is an IEEE-754 binary64 value. A finite one is kept as the rational
  it denotes; the two zeros, which Python's \<open>==\<close> and \<open>hash\<close> identify, are one value.
\<close>

datatype pyfloat = Finite rat | PosInf | NegInf | NaN

datatype pynum = PyInt int | PyFloat pyfloat

text \<open>
  An argument whose type the sizers inspect: a \<open>float\<close>, a \<open>numpy.float64\<close>, an
  \<open>int\<close>, or an object of any other type.
\<close>

datatype pyval = VFloat pyfloat | VNpFloat64 pyfloat | VInt int | VOther

section \<open>Binary64 arithmetic\<close>

text \<open>\<open>ilog2 a\<close> is the integer part of the binary logarithm of a positive rational.\<close>

definition ilog2 :: "rat \<Rightarrow> int" where
  "ilog2 a = (case quotient_of a of (n, d) \<Rightarrow>
     let k = bitlen n - bitlen d in if 2 powi k \<le> a then k else k - 1)"

definition round_half_even :: "rat \<Rightarrow> int" where
  "round_half_even x = (let f = \<lfloor>x\<rfloor>; d = x - of_int f in
      if d < 1 / 2 then f else if 1 / 2 < d then f + 1 else if even f then f else f + 1)"

text \<open>
  Rounding a rational to the nearest binary64 value, ties to even: 53 bits of mantissa,
  the least exponent \<open>-1074\<close>, and an infinity from \<open>2 ^ 1024\<close> on.
\<close>

definition to_double :: "rat \<Rightarrow> pyfloat" where
  "to_double q = (if q = 0 then Finite 0 else
     let a = \<bar>q\<bar>; e = max (ilog2 a - 52) (- 1074);
         m = round_half_even (a / 2 powi e);
         r = of_int m * 2 powi e
     in if 1024 < bitlen m + e then (if 0 < q then PosInf else NegInf)
        else Finite (if 0 < q then r else - r))"

text \<open>The integer square root, found bit by bit from the top.\<close>

fun isqrt_aux :: "nat \<Rightarrow> int \<Rightarrow> int \<Rightarrow> int" where
  "isqrt_aux 0 n r = r"
| "isqrt_aux (Suc k) n r =
     (let c = r + 2 ^ k in if c * c \<le> n then isqrt_aux k n c else isqrt_aux k n r)"

definition isqrt :: "int \<Rightarrow> int" where
  "isqrt n = isqrt_aux (nat (bitlen n)) n 0"

text \<open>
  The correctly rounded square root of a positive binary64 value: the mantissa is the
  integer square root of the scaled argument, rounded up when the root lies above the
  midpoint.
\<close>

definition sqrt_double :: "rat \<Rightarrow> rat" where
  "sqrt_double x = (let e = ilog2 x div 2 - 52;
        y = x / 4 powi e;
        t = isqrt \<lfloor>y\<rfloor>;
        m = (if (of_int t + 1 / 2)\<^sup>2 < y then t + 1 else t)
     in of_int m * 2 powi e)"

section \<open>Python's operations on numbers\<close>

text \<open>Converting an \<open>int\<close> to a \<open>float\<close> raises OverflowError when it is too large.\<close>

definition float_of_int :: "int \<Rightarrow> py_error + pyfloat" where
  "float_of_int n = (case to_double (of_int n) of Finite r \<Rightarrow> Inr (Finite r)
                     | _ \<Rightarrow> Inl OverflowError)"

definition to_float :: "pynum \<Rightarrow> py_error + pyfloat" where
  "to_float v = (case v of PyInt n \<Rightarrow> float_of_int n | PyFloat x \<Rightarrow> Inr x)"

fun float_mul :: "pyfloat \<Rightarrow> pyfloat \<Rightarrow> pyfloat" where
  "float_mul (Finite a) (Finite b) = to_double (a * b)"
| "float_mul NaN y = NaN"
| "float_mul x NaN = NaN"
| "float_mul (Finite a) PosInf = (if a = 0 then NaN else if 0 < a then PosInf else NegInf)"
| "float_mul (Finite a) NegInf = (if a = 0 then NaN else if 0 < a then NegInf else PosInf)"
| "float_mul PosInf (Finite b) = (if b = 0 then NaN else if 0 < b then PosInf else NegInf)"
| "float_mul NegInf (Finite b) = (if b = 0 then NaN else if 0 < b then NegInf else PosInf)"
| "float_mul PosInf PosInf = PosInf"
| "float_mul PosInf NegInf = NegInf"
| "float_mul NegInf PosInf = NegInf"
| "float_mul NegInf NegInf = PosInf"

text \<open>Float division raises ZeroDivisionError on a zero divisor, whatever the dividend.\<close>

fun float_div :: "pyfloat \<Rightarrow> pyfloat \<Rightarrow> py_error + pyfloat" where
  "float_div x (Finite b) =
     (if b = 0 then Inl ZeroDivisionError
      else case x of Finite a \<Rightarrow> Inr (to_double (a / b))
           | PosInf \<Rightarrow> Inr (if 0 < b then PosInf else NegInf)
           | NegInf \<Rightarrow> Inr (if 0 < b then NegInf else PosInf)
           | NaN \<Rightarrow> Inr NaN)"
| "float_div (Finite a) PosInf = Inr (Finite 0)"
| "float_div (Finite a) NegInf = Inr (Finite 0)"
| "float_div x y = Inr NaN"

text \<open>
  \<open>int / int\<close> is the correctly rounded quotient; it raises ZeroDivisionError on a zero
  divisor and OverflowError when the quotient is too large for a float.
\<close>

definition int_truediv :: "int \<Rightarrow> int \<Rightarrow> py_error + pyfloat" where
  "int_truediv a b =
     (if b = 0 then Inl ZeroDivisionError
      else case to_double (of_int a / of_int b) of Finite r \<Rightarrow> Inr (Finite r)
           | _ \<Rightarrow> Inl OverflowError)"

text \<open>\<open>/\<close> and \<open>*\<close> with a float result: a mixed pair converts its int first.\<close>

definition py_truediv :: "pynum \<Rightarrow> pynum \<Rightarrow> py_error + pyfloat" where
  "py_truediv x y =
     (case (x, y) of
        (PyInt a, PyInt b) \<Rightarrow> int_truediv a b
      | _ \<Rightarrow> and_then (to_float x) (\<lambda>a. and_then (to_float y) (\<lambda>b. float_div a b)))"

definition py_mul_float :: "pynum \<Rightarrow> pyfloat \<Rightarrow> py_error + pyfloat" where
  "py_mul_float x b = and_then (to_float x) (\<lambda>a. Inr (float_mul a b))"

text \<open>\<open>math.sqrt\<close> raises ValueError below zero.\<close>

definition py_sqrt :: "pyfloat \<Rightarrow> py_error + pyfloat" where
  "py_sqrt x = (case x of
       Finite a \<Rightarrow> (if a < 0 then Inl ValueError
                    else if a = 0 then Inr (Finite 0)
                    else Inr (Finite (sqrt_double a)))
     | PosInf \<Rightarrow> Inr PosInf
     | NegInf \<Rightarrow> Inl ValueError
     | NaN \<Rightarrow> Inr NaN)"

text \<open>\<open>int(x)\<close> truncates towards zero.\<close>

definition py_int :: "pyfloat \<Rightarrow> py_error + int" where
  "py_int x = (case x of
       Finite a \<Rightarrow> Inr (if 0 \<le> a then \<lfloor>a\<rfloor> else \<lceil>a\<rceil>)
     | NaN \<Rightarrow> Inl ValueError
     | _ \<Rightarrow> Inl OverflowError)"

text \<open>\<open>round(x)\<close> with one argument is the nearest integer, ties to even.\<close>

definition py_round :: "pyfloat \<Rightarrow> py_error + int" where
  "py_round x = (case x of
       Finite a \<Rightarrow> Inr (round_half_even a)
     | NaN \<Rightarrow> Inl ValueError
     | _ \<Rightarrow> Inl OverflowError)"

text \<open>
  \<open>round(x, ndigits)\<close> on a float: the decimal with \<open>ndigits\<close> places nearest to the exact
  value of \<open>x\<close> (ties to even), converted back to the nearest float. Values that are not
  finite come back unchanged, as does every value when \<open>ndigits\<close> is above 323; below
  \<open>-308\<close> the result is zero.
\<close>

definition py_round_ndigits :: "pyfloat \<Rightarrow> int \<Rightarrow> py_error + pyfloat" where
  "py_round_ndigits x ndigits = (case x of
       Finite a \<Rightarrow>
         (if 323 < ndigits then Inr (Finite a)
          else if ndigits < - 308 then Inr (Finite 0)
          else case to_double (of_int (round_half_even (a * 10 powi ndigits)) / 10 powi ndigits) of
                 Finite r \<Rightarrow> Inr (Finite r)
               | _ \<Rightarrow> Inl OverflowError)
     | _ \<Rightarrow> Inr x)"


section \<open>Sizes\<close>

text \<open>
  A size is the Python tuple \<open>(width, height)\<close> of two unbounded integers.
\<close>

type_synonym size = "int \<times> int"

section \<open>The interval adjuster\<close>

text \<open>
  \<open>MultiaspectImage.adjust_resolution_to_bucket_interval\<close>: both differences are taken
  first; the first branch adds the width difference to the height and then to the width,
  the second adds the height difference to both.
\<close>

definition adjust_resolution_to_bucket_interval :: "size \<Rightarrow> size \<Rightarrow> size" where
  "adjust_resolution_to_bucket_interval initial_resolution target_resolution =
     (case initial_resolution of (W_initial, H_initial) \<Rightarrow>
      case target_resolution of (W_adjusted, H_adjusted) \<Rightarrow>
        let W_diff = W_adjusted - W_initial;
            H_diff = H_adjusted - H_initial
        in if W_diff > 0 \<and> (W_diff > H_diff \<or> W_diff = H_diff)
           then (let H_initial' = H_initial + W_diff;
                     W_initial' = W_initial + W_diff
                 in (W_initial', H_initial'))
           else if H_diff > 0 \<and> H_diff > W_diff
           then (let W_initial' = W_initial + H_diff;
                     H_initial' = H_initial + H_diff
                 in (W_initial', H_initial'))
           else (W_initial, H_initial))"

section \<open>Configuration and the resolution cache\<close>

text \<open>
  The fields of \<open>StateTracker.get_args()\<close> that the module reads. The rounding precision
  may be \<open>None\<close>.
\<close>

record args =
  aspect_bucket_alignment :: int
  aspect_bucket_rounding :: "int option"

text \<open>
  Modelled from the spec: \<open>StateTracker.get_resolution_by_aspect\<close> and
  \<open>StateTracker.set_resolution_by_aspect\<close> are not among the source files. The resolution
  cache is a mapping keyed by the resolution and the aspect ratio to the size assigned to
  that pair; a lookup returns the stored size or nothing, a store adds the entry.
\<close>

type_synonym resolution_cache = "pyfloat \<times> pyfloat \<Rightarrow> size option"

definition get_resolution_by_aspect :: "resolution_cache \<Rightarrow> pyfloat \<Rightarrow> pyfloat \<Rightarrow> size option" where
  "get_resolution_by_aspect cache dataloader_resolution aspect =
     cache (dataloader_resolution, aspect)"

definition set_resolution_by_aspect ::
  "resolution_cache \<Rightarrow> pyfloat \<Rightarrow> pyfloat \<Rightarrow> size \<Rightarrow> resolution_cache" where
  "set_resolution_by_aspect cache dataloader_resolution aspect resolution =
     cache((dataloader_resolution, aspect) \<mapsto> resolution)"

section \<open>The alignment rounder\<close>

text \<open>
  \<open>MultiaspectImage._round_to_nearest_multiple\<close>: the value may be an int or a float, the
  multiple is the configured int.
\<close>

definition round_to_nearest_multiple :: "args \<Rightarrow> pynum \<Rightarrow> py_error + int" where
  "round_to_nearest_multiple a v =
     (let multiple = aspect_bucket_alignment a in
      and_then (py_truediv v (PyInt multiple)) (\<lambda>q.
      and_then (py_round q) (\<lambda>k.
      let rounded = k * multiple in
      Inr (max rounded multiple))))"

section \<open>The oversize checker\<close>


section \<open>The aspect ratio calculator\<close>

text \<open>
  The argument of \<open>calculate_image_aspect_ratio\<close>: an object with a \<open>size\<close> attribute, a
  tuple or list of width and height, or a float.
\<close>

datatype aspect_input = AnImage size | ASize size | ARatio pyfloat

definition calculate_image_aspect_ratio :: "args \<Rightarrow> aspect_input \<Rightarrow> int \<Rightarrow> py_error + pyfloat" where
  "calculate_image_aspect_ratio a img rounding =
     (let to_round = (case aspect_bucket_rounding a of None \<Rightarrow> rounding | Some r \<Rightarrow> r) in
      case img of
        ARatio x \<Rightarrow> py_round_ndigits x to_round
      | AnImage (width, height) \<Rightarrow>
          and_then (int_truediv width height) (\<lambda>q. py_round_ndigits q to_round)
      | ASize (width, height) \<Rightarrow>
          and_then (int_truediv width height) (\<lambda>q. py_round_ndigits q to_round))"

section \<open>The edge-based sizer\<close>

text \<open>
  \<open>MultiaspectImage.calculate_new_size_by_pixel_edge\<close>. The result is the target size,
  the intermediary size and the aspect ratio of the target.
\<close>

definition edge_initial_size :: "pyfloat \<Rightarrow> int \<Rightarrow> size \<Rightarrow> py_error + size" where
  "edge_initial_size aspect_ratio resolution original_size =
     (case original_size of (W_original, H_original) \<Rightarrow>
        if W_original < H_original
        then (let W_initial = resolution in
              and_then (py_truediv (PyInt W_initial) (PyFloat aspect_ratio)) (\<lambda>q.
              and_then (py_int q) (\<lambda>H_initial. Inr (W_initial, H_initial))))
        else (let H_initial = resolution in
              and_then (py_mul_float (PyInt H_initial) aspect_ratio) (\<lambda>p.
              and_then (py_int p) (\<lambda>W_initial. Inr (W_initial, H_initial)))))"

definition edge_leeway :: "size \<Rightarrow> size \<Rightarrow> size" where
  "edge_leeway initial adjusted =
     (case initial of (W_initial, H_initial) \<Rightarrow>
      case adjusted of (W_adjusted, H_adjusted) \<Rightarrow>
        if W_initial < W_adjusted \<or> H_initial < H_adjusted
        then (let reformed_W_diff = W_adjusted - W_initial;
                  reformed_H_diff = H_adjusted - H_initial;
                  bigger_difference = max reformed_W_diff reformed_H_diff
              in (W_initial + bigger_difference, H_initial + bigger_difference))
        else (W_initial, H_initial))"

definition calculate_new_size_by_pixel_edge ::
  "args \<Rightarrow> pyval \<Rightarrow> pyval \<Rightarrow> size \<Rightarrow> py_error + (size \<times> size \<times> pyfloat)" where
  "calculate_new_size_by_pixel_edge a aspect_ratio resolution original_size =
     (case aspect_ratio of
        VFloat ar \<Rightarrow>
          (case resolution of
             VInt res \<Rightarrow>
               and_then (edge_initial_size ar res original_size) (\<lambda>(W_initial, H_initial).
               and_then (round_to_nearest_multiple a (PyInt W_initial)) (\<lambda>W_adjusted.
               and_then (round_to_nearest_multiple a (PyInt H_initial)) (\<lambda>H_adjusted.
               let intermediary = edge_leeway (W_initial, H_initial) (W_adjusted, H_adjusted) in
               and_then (calculate_image_aspect_ratio a (ASize (W_adjusted, H_adjusted)) 2)
                 (\<lambda>adjusted_aspect_ratio.
               Inr ((W_adjusted, H_adjusted), intermediary, adjusted_aspect_ratio)))))
           | _ \<Rightarrow> Inl ValueError)
      | _ \<Rightarrow> Inl ValueError)"

section \<open>The area-based sizer\<close>

text \<open>
  \<open>MultiaspectImage.calculate_new_size_by_pixel_area\<close>, in the order of the source: the
  square edge, the early return for the ratio \<open>1.0\<close>, the target, the intermediary, the
  cache lookup, the repair of the intermediary, the cache store. The megapixel figures
  are computed for the log only, but their divisions can raise and are kept; \<open>np.isclose\<close>
  and the log calls raise nothing and are left out. The megapixels argument is a float,
  as annotated; a \<open>numpy.float64\<close> ratio carries the same binary64 value as a float and
  is computed with in the same way.
\<close>

definition area_pixel_edge :: "args \<Rightarrow> pyfloat \<Rightarrow> py_error + int" where
  "area_pixel_edge a megapixels =
     (let target_pixel_area = float_mul megapixels (Finite 1000000) in
      and_then (py_sqrt target_pixel_area) (\<lambda>s.
      and_then (py_int s) (\<lambda>i.
      round_to_nearest_multiple a (PyInt i))))"

definition area_target :: "args \<Rightarrow> pyfloat \<Rightarrow> int \<Rightarrow> py_error + size" where
  "area_target a aspect_ratio target_pixel_edge =
     and_then (py_sqrt aspect_ratio) (\<lambda>s.
     and_then (py_mul_float (PyInt target_pixel_edge) s) (\<lambda>x.
     and_then (round_to_nearest_multiple a (PyFloat x)) (\<lambda>W_target.
     and_then (py_sqrt aspect_ratio) (\<lambda>s'.
     and_then (py_truediv (PyInt target_pixel_edge) (PyFloat s')) (\<lambda>y.
     and_then (round_to_nearest_multiple a (PyFloat y)) (\<lambda>H_target.
     and_then (py_truediv (PyInt (W_target * H_target)) (PyFloat (Finite 1000000)))
       (\<lambda>calculated_resulting_megapixels.
     and_then (calculate_image_aspect_ratio a (ASize (W_target, H_target)) 2)
       (\<lambda>target_aspect_ratio.
     Inr (W_target, H_target)))))))))"

definition area_intermediary :: "pyfloat \<Rightarrow> size \<Rightarrow> py_error + size" where
  "area_intermediary aspect_ratio target =
     (case target of (W_target, H_target) \<Rightarrow>
        if W_target < H_target
        then (let W_intermediary = W_target in
              and_then (py_truediv (PyInt W_intermediary) (PyFloat aspect_ratio)) (\<lambda>q.
              and_then (py_int q) (\<lambda>H_intermediary. Inr (W_intermediary, H_intermediary))))
        else (let H_intermediary = H_target in
              and_then (py_mul_float (PyInt H_intermediary) aspect_ratio) (\<lambda>p.
              and_then (py_int p) (\<lambda>W_intermediary. Inr (W_intermediary, H_intermediary)))))"

definition area_repair :: "pyfloat \<Rightarrow> size \<Rightarrow> size \<Rightarrow> py_error + size" where
  "area_repair aspect_ratio target intermediary =
     (case target of (W_target, H_target) \<Rightarrow>
      case intermediary of (W_intermediary, H_intermediary) \<Rightarrow>
        if W_target > W_intermediary \<or> H_target > H_intermediary
        then and_then
               (if W_target > W_intermediary
                then (let W_diff = W_target - W_intermediary in
                      and_then (py_truediv (PyInt W_diff) (PyFloat aspect_ratio)) (\<lambda>q.
                      and_then (py_int q) (\<lambda>H_diff. Inr (W_diff, H_diff))))
                else (let H_diff = H_target - H_intermediary in
                      and_then (py_mul_float (PyInt H_diff) aspect_ratio) (\<lambda>p.
                      and_then (py_int p) (\<lambda>W_diff. Inr (W_diff, H_diff)))))
               (\<lambda>(W_diff, H_diff).
                  let H_intermediary' = H_intermediary + H_diff;
                      W_intermediary' = W_intermediary + W_diff
                  in and_then (py_truediv (PyInt (W_intermediary' * H_intermediary'))
                                 (PyFloat (Finite 1000000)))
                       (\<lambda>calculated_resulting_megapixels.
                          Inr (W_intermediary', H_intermediary')))
        else Inr (W_intermediary, H_intermediary))"

definition calculate_new_size_by_pixel_area ::
  "args \<Rightarrow> resolution_cache \<Rightarrow> pyval \<Rightarrow> pyfloat \<Rightarrow> size
     \<Rightarrow> py_error + ((size \<times> size \<times> pyfloat) \<times> resolution_cache)" where
  "calculate_new_size_by_pixel_area a cache aspect_ratio megapixels original_size =
     (case (case aspect_ratio of VFloat x \<Rightarrow> Some x | VNpFloat64 x \<Rightarrow> Some x | _ \<Rightarrow> None) of
        None \<Rightarrow> Inl ValueError
      | Some ar \<Rightarrow>
          and_then (area_pixel_edge a megapixels) (\<lambda>target_pixel_edge.
          case original_size of (W_initial, H_initial) \<Rightarrow>
          if ar = Finite 1
          then Inr (((target_pixel_edge, target_pixel_edge), (W_initial, H_initial), ar), cache)
          else
            and_then (area_target a ar target_pixel_edge) (\<lambda>computed_target.
            and_then (area_intermediary ar computed_target) (\<lambda>intermediary.
            and_then (calculate_image_aspect_ratio a (ASize computed_target) 2)
              (\<lambda>adjusted_aspect_ratio.
            let previously_stored_resolution =
                  get_resolution_by_aspect cache megapixels adjusted_aspect_ratio;
                target_resolution =
                  (case previously_stored_resolution of
                     Some stored \<Rightarrow> stored
                   | None \<Rightarrow> computed_target)
            in and_then (area_repair ar target_resolution intermediary)
                 (\<lambda>intermediary_resolution.
                    let cache' =
                          (case previously_stored_resolution of
                             None \<Rightarrow> set_resolution_by_aspect cache megapixels
                                       adjusted_aspect_ratio target_resolution
                           | Some stored \<Rightarrow> cache)
                    in Inr ((target_resolution, intermediary_resolution,
                             adjusted_aspect_ratio), cache')))))))"

section \<open>A reference configuration\<close>

text \<open>
  The alignment unit 64 with the rounding precision left at \<open>None\<close>, so that the default
  of two decimals applies: the configuration of the worked examples.
\<close>

definition default_args :: args where
  "default_args = \<lparr>aspect_bucket_alignment = 64, aspect_bucket_rounding = None\<rparr>"

section \<open>Predicates on sizes\<close>

text \<open>
  An intermediary size covers a target when it is at least the target in both axes, so
  that the target can be cropped out of it. A size is aligned when both dimensions are
  positive multiples of the alignment unit.
\<close>

definition covers :: "size \<Rightarrow> size \<Rightarrow> bool" where
  "covers intermediary target =
     (fst target \<le> fst intermediary \<and> snd target \<le> snd intermediary)"

definition aligned :: "args \<Rightarrow> size \<Rightarrow> bool" where
  "aligned a s =
     (0 < fst s \<and> aspect_bucket_alignment a dvd fst s \<and>
      0 < snd s \<and> aspect_bucket_alignment a dvd snd s)"

text \<open>
  The nearest positive multiple of a unit to a value: a positive multiple that no other
  positive multiple is closer to. The value of a number is the rational it denotes. A
  number is exactly divided when it is an int, or a float that is a binary64 value, of
  magnitude below \<open>2 ^ 52\<close>: there the float quotient by the unit rounds to the same
  integer as the exact quotient.
\<close>

definition nearest_positive_multiple :: "int \<Rightarrow> rat \<Rightarrow> int \<Rightarrow> bool" where
  "nearest_positive_multiple u v k =
     (0 < k \<and> u dvd k \<and> (\<forall>j. 0 < j \<and> u dvd j \<longrightarrow> \<bar>v - of_int k\<bar> \<le> \<bar>v - of_int j\<bar>))"

definition num_value :: "pynum \<Rightarrow> rat" where
  "num_value v = (case v of PyInt n \<Rightarrow> of_int n | PyFloat (Finite x) \<Rightarrow> x | PyFloat _ \<Rightarrow> 0)"

definition exactly_divided :: "pynum \<Rightarrow> bool" where
  "exactly_divided v =
     (case v of
        PyInt n \<Rightarrow> \<bar>n\<bar> < 2 ^ 52
      | PyFloat (Finite x) \<Rightarrow> to_double x = Finite x \<and> \<bar>x\<bar> < 2 ^ 52
      | PyFloat _ \<Rightarrow> False)"

section \<open>Sequencing of results\<close>

lemma and_then_Inr [simp]: "and_then (Inr x) f = f x"
  by (simp add: and_then_def)

lemma and_then_Inl [simp]: "and_then (Inl e) f = Inl e"
  by (simp add: and_then_def)

lemma and_then_eq_Inr: "and_then m f = Inr y \<longleftrightarrow> (\<exists>x. m = Inr x \<and> f x = Inr y)"
  by (cases m) simp_all

section \<open>Properties of the interval adjuster\<close>


text \<open>
  Claim C10. For all integer sizes the adjusted size covers the target in both axes: its
  width is at least the target's width and its height at least the target's height.
\<close>

theorem adjust_resolution_covers_target:
  "fst (adjust_resolution_to_bucket_interval (wi, hi) (wt, ht)) \<ge> wt
   \<and> snd (adjust_resolution_to_bucket_interval (wi, hi) (wt, ht)) \<ge> ht"
  by (auto simp: adjust_resolution_to_bucket_interval_def Let_def)

section \<open>Facts about binary64 rounding\<close>

text \<open>The binary logarithm brackets its argument between two powers of two.\<close>

lemma bitlen_powi:
  assumes "0 < n"
  shows "(2::rat) powi (bitlen n - 1) \<le> of_int n" and "of_int n < (2::rat) powi bitlen n"
proof -
  from bitlen_bounds[OF assms]
  have lo: "2 ^ nat (bitlen n - 1) \<le> n" and hi: "n < 2 ^ nat (bitlen n)" by auto
  have pos: "1 \<le> bitlen n"
  proof (rule ccontr)
    assume "\<not> 1 \<le> bitlen n"
    then have "nat (bitlen n) = 0" by simp
    with hi assms show False by simp
  qed
  have "(2::rat) powi (bitlen n - 1) = 2 ^ nat (bitlen n - 1)"
    using pos by (simp add: power_int_def)
  also have "\<dots> = of_int (2 ^ nat (bitlen n - 1))" by simp
  also have "\<dots> \<le> of_int n" using lo by (simp only: of_int_le_iff)
  finally show "(2::rat) powi (bitlen n - 1) \<le> of_int n" .
  have "(of_int n :: rat) < of_int (2 ^ nat (bitlen n))" using hi by (simp only: of_int_less_iff)
  also have "\<dots> = 2 ^ nat (bitlen n)" by simp
  also have "\<dots> = 2 powi bitlen n" using pos by (simp add: power_int_def)
  finally show "of_int n < (2::rat) powi bitlen n" .
qed

lemma ilog2_bounds:
  assumes "0 < a"
  shows "2 powi ilog2 a \<le> a" and "a < 2 powi (ilog2 a + 1)"
proof -
  obtain n d where qd: "quotient_of a = (n, d)" by (cases "quotient_of a")
  have d: "0 < d" using quotient_of_denom_pos[OF qd] .
  have a: "a = of_int n / of_int d" using quotient_of_div[OF qd] .
  have n: "0 < n" using assms a d by (simp add: zero_less_divide_iff)
  define k where "k = bitlen n - bitlen d"
  note bn = bitlen_powi[OF n] and bd = bitlen_powi[OF d]
  have dpos: "(0::rat) < of_int d" using d by simp
  have "a < 2 powi bitlen n / 2 powi (bitlen d - 1)"
    unfolding a using bn(2) bd(1) dpos n
    by (intro frac_less) (auto intro: zero_less_power_int)
  also have "\<dots> = 2 powi (k + 1)"
    unfolding k_def by (simp add: power_int_diff[symmetric] algebra_simps)
  finally have up: "a < 2 powi (k + 1)" .
  have "2 powi (bitlen n - 1) / 2 powi bitlen d < a"
    unfolding a using bn(1) bd(2) dpos n
    by (intro frac_less2) (auto intro: zero_less_power_int)
  moreover have "2 powi (bitlen n - 1) / (2::rat) powi bitlen d = 2 powi (k - 1)"
    unfolding k_def by (simp add: power_int_diff[symmetric] algebra_simps)
  ultimately have lo: "2 powi (k - 1) < a" by simp
  have il: "ilog2 a = (if 2 powi k \<le> a then k else k - 1)"
    by (simp add: ilog2_def qd k_def Let_def)
  show "2 powi ilog2 a \<le> a" using lo by (simp add: il less_imp_le)
  show "a < 2 powi (ilog2 a + 1)" using up by (auto simp add: il)
qed

lemma ilog2_unique:
  assumes "0 < a" "2 powi L \<le> a" "a < 2 powi (L + 1)"
  shows "ilog2 a = L"
proof -
  note b = ilog2_bounds[OF assms(1)]
  have "2 powi L < (2::rat) powi (ilog2 a + 1)" using assms(2) b(2) by simp
  then have "L < ilog2 a + 1"
    by (metis power_int_increasing not_less one_le_numeral)
  moreover have "2 powi ilog2 a < (2::rat) powi (L + 1)" using assms(3) b(1) by simp
  then have "ilog2 a < L + 1"
    by (metis power_int_increasing not_less one_le_numeral)
  ultimately show ?thesis by simp
qed

text \<open>Rounding keeps the sign: a non-negative rational rounds to a non-negative float.\<close>

lemma round_half_even_nonneg: "0 \<le> x \<Longrightarrow> 0 \<le> round_half_even x"
  by (auto simp: round_half_even_def Let_def)

lemma to_double_nonneg:
  assumes "0 \<le> q" "to_double q = Finite r"
  shows "0 \<le> r"
proof (cases "q = 0")
  case True
  with assms show ?thesis by (simp add: to_double_def)
next
  case False
  with assms(1) have q: "0 < q" by simp
  define e where "e = max (ilog2 \<bar>q\<bar> - 52) (- 1074)"
  have "0 \<le> \<bar>q\<bar> / 2 powi e" by (simp add: zero_le_divide_iff power_int_def)
  then have m: "0 \<le> round_half_even (\<bar>q\<bar> / 2 powi e)" by (rule round_half_even_nonneg)
  have "r = of_int (round_half_even (\<bar>q\<bar> / 2 powi e)) * 2 powi e"
    using assms(2) q False by (simp add: to_double_def Let_def e_def split: if_splits)
  with m show ?thesis by (simp add: zero_le_mult_iff power_int_def)
qed

lemma float_of_int_Finite: "float_of_int n = Inr x \<Longrightarrow> \<exists>r. x = Finite r \<and> to_double (of_int n) = Finite r"
  by (cases "to_double (of_int n)") (auto simp: float_of_int_def)

lemma float_of_int_nonneg:
  assumes "0 \<le> n" "float_of_int n = Inr x"
  obtains r where "x = Finite r" "0 \<le> r"
proof -
  from float_of_int_Finite[OF assms(2)] obtain r where r: "x = Finite r" "to_double (of_int n) = Finite r"
    by blast
  have "0 \<le> r" using to_double_nonneg[OF _ r(2)] assms(1) by simp
  with r(1) that show ?thesis by blast
qed

lemma py_int_nonneg: "0 \<le> r \<Longrightarrow> py_int (Finite r) = Inr k \<Longrightarrow> 0 \<le> k"
  by (auto simp: py_int_def)

lemma int_mul_float_trunc_nonneg:
  assumes "0 \<le> d" "0 < x" "py_mul_float (PyInt d) (Finite x) = Inr p" "py_int p = Inr k"
  shows "0 \<le> k"
proof -
  from assms(3) obtain f where f: "float_of_int d = Inr f" and p: "p = float_mul f (Finite x)"
    by (auto simp: py_mul_float_def to_float_def and_then_eq_Inr)
  from float_of_int_nonneg[OF assms(1) f] obtain r where r: "f = Finite r" "0 \<le> r" by blast
  from assms(4) p r obtain y where y: "to_double (r * x) = Finite y"
    by (cases "to_double (r * x)") (auto simp: py_int_def)
  have "0 \<le> y" using to_double_nonneg[OF _ y] r(2) assms(2) by simp
  then show ?thesis using assms(4) p r y by (simp add: py_int_nonneg)
qed

lemma int_div_float_trunc_nonneg:
  assumes "0 \<le> d" "0 < x" "py_truediv (PyInt d) (PyFloat (Finite x)) = Inr q" "py_int q = Inr k"
  shows "0 \<le> k"
proof -
  from assms(3) obtain f where f: "float_of_int d = Inr f" and q: "float_div f (Finite x) = Inr q"
    by (auto simp: py_truediv_def to_float_def and_then_eq_Inr)
  from float_of_int_nonneg[OF assms(1) f] obtain r where r: "f = Finite r" "0 \<le> r" by blast
  from q r assms(2) have q': "q = to_double (r / x)" by simp
  from assms(4) q' obtain y where y: "to_double (r / x) = Finite y"
    by (cases "to_double (r / x)") (auto simp: py_int_def)
  have "0 \<le> y" using to_double_nonneg[OF _ y] r(2) assms(2) by simp
  then show ?thesis using assms(4) q' y by (simp add: py_int_nonneg)
qed

text \<open>Rounding to the nearest integer, ties to even.\<close>

lemma round_half_even_eqI:
  assumes "of_int m - 1 / 2 < y" "y < of_int m + 1 / 2"
  shows "round_half_even y = m"
proof -
  have "\<lfloor>y\<rfloor> = m \<or> \<lfloor>y\<rfloor> = m - 1" using assms by linarith
  then show ?thesis
  proof
    assume "\<lfloor>y\<rfloor> = m"
    then show ?thesis using assms by (simp add: round_half_even_def Let_def)
  next
    assume f: "\<lfloor>y\<rfloor> = m - 1"
    then have "1 / 2 < y - of_int \<lfloor>y\<rfloor>" using assms by simp
    then show ?thesis using f by (simp add: round_half_even_def Let_def)
  qed
qed

lemma round_half_even_of_int [simp]: "round_half_even (of_int n) = n"
  by (simp add: round_half_even_def)

lemma round_half_even_range: "\<lfloor>y\<rfloor> \<le> round_half_even y \<and> round_half_even y \<le> \<lfloor>y\<rfloor> + 1"
  by (simp add: round_half_even_def Let_def)

lemma round_half_even_less:
  assumes "y < of_int N - 1 / 2"
  shows "round_half_even y < N"
proof (cases "\<lfloor>y\<rfloor> = N - 1")
  case True
  then have "y - of_int \<lfloor>y\<rfloor> < 1 / 2" using assms by simp
  then show ?thesis using True by (simp add: round_half_even_def Let_def)
next
  case False
  moreover have "\<lfloor>y\<rfloor> \<le> N - 1" using assms by linarith
  ultimately show ?thesis using round_half_even_range[of y] by linarith
qed

lemma round_half_even_greater:
  assumes "of_int N + 1 / 2 < y"
  shows "N < round_half_even y"
proof (cases "\<lfloor>y\<rfloor> = N")
  case True
  then have "1 / 2 < y - of_int \<lfloor>y\<rfloor>" using assms by simp
  then show ?thesis using True by (simp add: round_half_even_def Let_def)
next
  case False
  moreover have "N \<le> \<lfloor>y\<rfloor>" using assms by linarith
  ultimately show ?thesis using round_half_even_range[of y] by linarith
qed

lemma round_half_even_le:
  assumes "y \<le> of_int N"
  shows "round_half_even y \<le> N"
proof (cases "y = of_int N")
  case True
  then show ?thesis by simp
next
  case False
  with assms have "y < of_int N" by simp
  then have "\<lfloor>y\<rfloor> \<le> N - 1" by linarith
  then show ?thesis using round_half_even_range[of y] by linarith
qed

lemma round_half_even_close: "\<bar>y - of_int (round_half_even y)\<bar> \<le> 1 / 2"
proof -
  have a: "of_int \<lfloor>y\<rfloor> \<le> y" and b: "y < of_int \<lfloor>y\<rfloor> + 1" by linarith+
  consider "y - of_int \<lfloor>y\<rfloor> < 1 / 2" | "1 / 2 < y - of_int \<lfloor>y\<rfloor>"
    | "y - of_int \<lfloor>y\<rfloor> = 1 / 2" by linarith
  then show ?thesis
  proof cases
    case 1
    then have "round_half_even y = \<lfloor>y\<rfloor>" by (simp add: round_half_even_def Let_def)
    with 1 a show ?thesis by simp
  next
    case 2
    then have "round_half_even y = \<lfloor>y\<rfloor> + 1" by (simp add: round_half_even_def Let_def)
    with 2 b show ?thesis by simp
  next
    case 3
    then have "round_half_even y = \<lfloor>y\<rfloor> \<or> round_half_even y = \<lfloor>y\<rfloor> + 1"
      by (simp add: round_half_even_def Let_def)
    with 3 show ?thesis by auto
  qed
qed

lemma round_half_even_nonpos: "y \<le> 0 \<Longrightarrow> round_half_even y \<le> 0"
  using round_half_even_le[of y 0] by simp

text \<open>
  A positive rational rounds through a mantissa below \<open>2 ^ 53\<close>; below \<open>2 ^ 52\<close> the exponent
  is negative and the result is finite.
\<close>

lemma to_double_pos:
  assumes "0 < q"
  shows "to_double q =
    (if 1024 < bitlen (round_half_even (q / 2 powi max (ilog2 q - 52) (- 1074)))
                + max (ilog2 q - 52) (- 1074)
     then PosInf
     else Finite (of_int (round_half_even (q / 2 powi max (ilog2 q - 52) (- 1074)))
                  * 2 powi max (ilog2 q - 52) (- 1074)))"
  using assms by (simp add: to_double_def Let_def)

lemma scaled_below_two_53:
  assumes "0 < q"
  shows "q / 2 powi max (ilog2 q - 52) (- 1074) < 2 ^ 53"
proof -
  define e where "e = max (ilog2 q - 52) (- 1074)"
  have "q < 2 powi (ilog2 q + 1)" using ilog2_bounds(2)[OF assms] .
  also have "\<dots> \<le> 2 powi (e + 53)"
    by (rule power_int_increasing) (auto simp: e_def)
  also have "\<dots> = 2 powi e * 2 ^ 53"
    by (simp add: power_int_add)
  finally have "q < 2 powi e * 2 ^ 53" .
  moreover have "(0::rat) < 2 powi e" by (simp add: zero_less_power_int)
  ultimately show ?thesis unfolding e_def[symmetric]
    by (simp add: pos_divide_less_eq mult.commute)
qed

lemma to_double_below_two_52:
  assumes "0 < q" "q < 2 ^ 52"
  shows "max (ilog2 q - 52) (- 1074) \<le> - 1"
    and "to_double q = Finite (of_int (round_half_even (q / 2 powi max (ilog2 q - 52) (- 1074)))
                  * 2 powi max (ilog2 q - 52) (- 1074))"
proof -
  define e where "e = max (ilog2 q - 52) (- 1074)"
  define M where "M = round_half_even (q / 2 powi e)"
  have "2 powi ilog2 q < (2::rat) powi 52"
    using ilog2_bounds(1)[OF assms(1)] assms(2) by simp
  then have "ilog2 q < 52"
    by (metis power_int_increasing not_less one_le_numeral)
  then show e: "max (ilog2 q - 52) (- 1074) \<le> - 1" by simp
  have "q / 2 powi e \<le> of_int (2 ^ 53)"
    using scaled_below_two_53[OF assms(1)] by (simp add: e_def)
  then have "M \<le> 2 ^ 53" unfolding M_def by (rule round_half_even_le)
  then have "M < 2 ^ 54" by simp
  then have "bitlen M \<le> 54"
    using bitlen_le_iff_power[of M 54] by simp
  with e have "\<not> 1024 < bitlen M + e" by (simp add: e_def)
  then show "to_double q = Finite (of_int (round_half_even (q / 2 powi max (ilog2 q - 52) (- 1074)))
                  * 2 powi max (ilog2 q - 52) (- 1074))"
    using to_double_pos[OF assms(1)] by (simp add: e_def M_def)
qed

text \<open>
  The quotient of a binary64 value below \<open>2 ^ 52\<close> by a positive int keeps clear of every
  half-integer it does not hit: the distance is more than half a unit in the last place.
\<close>

lemma half_separation:
  fixes q x :: rat and u Mx j Ex :: int
  assumes x: "x = of_int Mx * 2 powi Ex" and Ex: "Ex \<le> - 1" and Mx: "0 < Mx" "Mx < 2 ^ 53"
    and u: "0 < u" and q: "q = x / of_int u" and ne: "q \<noteq> of_int j + 1 / 2"
  shows "2 powi max (ilog2 q - 52) (- 1074) / 2 < \<bar>q - (of_int j + 1 / 2)\<bar>"
proof -
  define P :: rat where "P = 2 powi Ex"
  have P: "0 < P" by (simp add: P_def zero_less_power_int)
  have xpos: "0 < x" using x Mx P by (simp add: P_def)
  have upos: "(0::rat) < of_int u" using u by simp
  have qpos: "0 < q" using q xpos upos by simp
  show ?thesis
  proof (cases "- 1074 \<le> ilog2 q - 52")
    case True
    then have e: "max (ilog2 q - 52) (- 1074) = ilog2 q - 52" by simp
    have "(2::rat) powi (ilog2 q - 52) = 2 powi ilog2 q / 2 ^ 52"
      by (simp add: power_int_diff)
    also have "\<dots> \<le> q / 2 ^ 52"
      using ilog2_bounds(1)[OF qpos] by (simp add: divide_right_mono)
    finally have pe: "(2::rat) powi (ilog2 q - 52) \<le> q / 2 ^ 52" .
    define K where "K = Mx - (2 * j + 1) * u * 2 ^ nat (- Ex - 1)"
    have inv: "(2::rat) ^ nat (- Ex - 1) * (2 * P) = 1"
    proof -
      have "(2::rat) ^ nat (- Ex - 1) = 2 powi (- Ex - 1)"
        using Ex by (simp add: power_int_def)
      moreover have "2 * P = (2::rat) powi (Ex + 1)"
        by (simp add: P_def power_int_add)
      ultimately have "(2::rat) ^ nat (- Ex - 1) * (2 * P) = 2 powi (- Ex - 1) * 2 powi (Ex + 1)"
        by simp
      also have "\<dots> = 2 powi ((- Ex - 1) + (Ex + 1))"
        by (subst power_int_add) simp_all
      finally show ?thesis by simp
    qed
    have D: "2 * x - of_int ((2 * j + 1) * u) = of_int K * (2 * P)"
    proof -
      have "of_int K * (2 * P)
          = of_int Mx * (2 * P) - of_int ((2 * j + 1) * u) * ((2::rat) ^ nat (- Ex - 1) * (2 * P))"
        by (simp add: K_def algebra_simps)
      also have "\<dots> = 2 * x - of_int ((2 * j + 1) * u)"
        unfolding inv by (simp add: x P_def)
      finally show ?thesis by simp
    qed
    have qh: "q - (of_int j + 1 / 2) = (2 * x - of_int ((2 * j + 1) * u)) / (2 * of_int u)"
      using upos by (simp add: q field_simps)
    have "K \<noteq> 0"
    proof
      assume "K = 0"
      with D qh have "q - (of_int j + 1 / 2) = 0" by simp
      with ne show False by simp
    qed
    then have "1 \<le> \<bar>K\<bar>" by simp
    then have "(1::rat) \<le> \<bar>of_int K\<bar>" by (metis of_int_abs of_int_1_le_iff)
    then have "2 * P \<le> \<bar>of_int K\<bar> * (2 * P)" using P by simp
    moreover have "\<bar>of_int K * (2 * P)\<bar> = \<bar>of_int K\<bar> * (2 * P)"
      using P by (simp add: abs_mult)
    ultimately have absD: "2 * P \<le> \<bar>2 * x - of_int ((2 * j + 1) * u)\<bar>"
      by (simp only: D)
    have "q / 2 ^ 52 / 2 = of_int Mx * P / (of_int u * 2 ^ 53)"
      by (simp add: q x P_def)
    also have "\<dots> = (of_int Mx / 2 ^ 53) * (P / of_int u)" by simp
    also have "\<dots> < 1 * (P / of_int u)"
    proof (rule mult_strict_right_mono)
      have "(of_int Mx :: rat) < 2 ^ 53"
        using Mx(2) by (metis of_int_less_iff of_int_numeral of_int_power)
      then show "(of_int Mx :: rat) / 2 ^ 53 < 1" by simp
      show "0 < P / of_int u" using P upos by simp
    qed
    also have "\<dots> = 2 * P / (2 * of_int u)" by simp
    also have "\<dots> \<le> \<bar>2 * x - of_int ((2 * j + 1) * u)\<bar> / (2 * of_int u)"
      by (intro divide_right_mono) (use absD upos in auto)
    also have "\<dots> = \<bar>q - (of_int j + 1 / 2)\<bar>"
      using upos by (simp add: qh abs_divide)
    finally have "q / 2 ^ 52 / 2 < \<bar>q - (of_int j + 1 / 2)\<bar>" .
    moreover have "2 powi (ilog2 q - 52) / 2 \<le> q / 2 ^ 52 / 2" using pe by simp
    ultimately show ?thesis unfolding e by linarith
  next
    case False
    then have e: "max (ilog2 q - 52) (- 1074) = - 1074" by simp
    have "q < 2 powi (ilog2 q + 1)" using ilog2_bounds(2)[OF qpos] .
    also have "\<dots> \<le> 2 powi (- 2)"
      by (rule power_int_increasing) (use False in auto)
    finally have q4: "q < 1 / 4" by simp
    have "(1::rat) / 2 \<le> \<bar>of_int j + 1 / 2\<bar>"
    proof (cases "0 \<le> j")
      case True
      then have "(0::rat) \<le> of_int j" by simp
      then show ?thesis by linarith
    next
      case False
      then have "j \<le> - 1" by simp
      then have "(of_int j :: rat) \<le> - 1" by (metis of_int_le_iff of_int_minus of_int_1)
      then show ?thesis by linarith
    qed
    then have "1 / 4 < \<bar>q - (of_int j + 1 / 2)\<bar>" using q4 qpos by linarith
    moreover have "(2::rat) powi (- 1074) / 2 \<le> 1 / 4"
    proof -
      have "(2::rat) powi (- 1074) \<le> 2 powi (- 1)"
        by (rule power_int_increasing) simp_all
      then show ?thesis by simp
    qed
    ultimately show ?thesis unfolding e by linarith
  qed
qed

lemma half_integer_scaled:
  fixes e j :: int
  assumes "e \<le> - 1"
  shows "(of_int j + 1 / 2 :: rat) / 2 powi e = of_int ((2 * j + 1) * 2 ^ nat (- e - 1))"
proof -
  have "(1::rat) / 2 powi e = 2 powi (- e)" by (simp add: power_int_minus divide_inverse)
  also have "\<dots> = 2 powi ((- e - 1) + 1)" by simp
  also have "\<dots> = 2 powi (- e - 1) * 2"
    by (subst power_int_add) simp_all
  also have "\<dots> = 2 ^ nat (- e - 1) * 2" using assms by (simp add: power_int_def)
  finally have "(1::rat) / 2 powi e = 2 ^ nat (- e - 1) * 2" .
  then have "(of_int j + 1 / 2 :: rat) / 2 powi e = (of_int j + 1 / 2) * (2 ^ nat (- e - 1) * 2)"
    by (metis divide_inverse inverse_eq_divide times_divide_eq_right mult.right_neutral)
  also have "\<dots> = of_int ((2 * j + 1) * 2 ^ nat (- e - 1))" by (simp add: algebra_simps)
  finally show ?thesis .
qed

text \<open>So the float quotient and the exact quotient round to the same integer.\<close>

lemma round_of_to_double:
  fixes q x :: rat and u Mx Ex :: int
  assumes x: "x = of_int Mx * 2 powi Ex" and Ex: "Ex \<le> - 1" and Mx: "0 < Mx" "Mx < 2 ^ 53"
    and u: "0 < u" and q: "q = x / of_int u"
  obtains f :: rat where "to_double q = Finite f" "round_half_even f = round_half_even q"
proof -
  define e where "e = max (ilog2 q - 52) (- 1074)"
  define M where "M = round_half_even (q / 2 powi e)"
  define f :: rat where "f = of_int M * 2 powi e"
  have pe: "(0::rat) < 2 powi e" by (simp add: zero_less_power_int)
  have xpos: "0 < x" using x Mx by (simp add: zero_less_power_int)
  have upos: "(1::rat) \<le> of_int u" using u by (metis of_int_1_le_iff int_one_le_iff_zero_less)
  have qpos: "0 < q" using q xpos upos by simp
  have "x < 2 ^ 53 * 2 powi (- 1)"
  proof -
    have "(of_int Mx :: rat) < 2 ^ 53"
      using Mx(2) by (metis of_int_less_iff of_int_numeral of_int_power)
    moreover have "(2::rat) powi Ex \<le> 2 powi (- 1)"
      by (rule power_int_increasing) (use Ex in auto)
    moreover have "(0::rat) < 2 powi Ex" by (simp add: zero_less_power_int)
    moreover have "(0::rat) < of_int Mx" using Mx(1) by simp
    ultimately show ?thesis unfolding x
      by (intro mult_less_le_imp_less) auto
  qed
  then have x52: "x < 2 ^ 52" by simp
  have "q \<le> x" using upos xpos by (simp add: q divide_le_eq)
  with x52 have q52: "q < 2 ^ 52" by simp
  note td = to_double_below_two_52[OF qpos q52, folded e_def, folded M_def, folded f_def]
  have e1: "e \<le> - 1" using td(1) .
  have fin: "to_double q = Finite f" using td(2) .
  have below: "f < of_int j + 1 / 2" if "q < of_int j + 1 / 2" for j
  proof -
    define H where "H = (2 * j + 1) * 2 ^ nat (- e - 1)"
    have H: "(of_int j + 1 / 2 :: rat) / 2 powi e = of_int H"
      unfolding H_def by (rule half_integer_scaled[OF e1])
    have "q \<noteq> of_int j + 1 / 2" using that by simp
    from half_separation[OF x Ex Mx u q this, folded e_def] that
    have "2 powi e / 2 < (of_int j + 1 / 2) - q" by simp
    then have "(2 powi e / 2) / 2 powi e < ((of_int j + 1 / 2) - q) / 2 powi e"
      using pe by (simp add: divide_strict_right_mono)
    moreover have "(2 powi e / 2) / 2 powi e = (1::rat) / 2" using pe by simp
    moreover have "((of_int j + 1 / 2) - q) / 2 powi e = of_int H - q / 2 powi e"
      by (simp only: diff_divide_distrib H)
    ultimately have "q / 2 powi e < of_int H - 1 / 2" by linarith
    then have "M < H" unfolding M_def by (rule round_half_even_less)
    then have "(of_int M :: rat) < of_int H" by simp
    then have "f < of_int H * 2 powi e" unfolding f_def using pe by simp
    also have "\<dots> = of_int j + 1 / 2" using pe by (simp add: H[symmetric])
    finally show ?thesis .
  qed
  have above: "of_int j + 1 / 2 < f" if "of_int j + 1 / 2 < q" for j
  proof -
    define H where "H = (2 * j + 1) * 2 ^ nat (- e - 1)"
    have H: "(of_int j + 1 / 2 :: rat) / 2 powi e = of_int H"
      unfolding H_def by (rule half_integer_scaled[OF e1])
    have "q \<noteq> of_int j + 1 / 2" using that by simp
    from half_separation[OF x Ex Mx u q this, folded e_def] that
    have "2 powi e / 2 < q - (of_int j + 1 / 2)" by simp
    then have "(2 powi e / 2) / 2 powi e < (q - (of_int j + 1 / 2)) / 2 powi e"
      using pe by (simp add: divide_strict_right_mono)
    moreover have "(2 powi e / 2) / 2 powi e = (1::rat) / 2" using pe by simp
    moreover have "(q - (of_int j + 1 / 2)) / 2 powi e = q / 2 powi e - of_int H"
      by (simp only: diff_divide_distrib H)
    ultimately have "of_int H + 1 / 2 < q / 2 powi e" by linarith
    then have "H < M" unfolding M_def by (rule round_half_even_greater)
    then have "(of_int H :: rat) < of_int M" by simp
    then have "of_int H * 2 powi e < f" unfolding f_def using pe by simp
    moreover have "of_int H * 2 powi e = (of_int j + 1 / 2 :: rat)" using pe by (simp add: H[symmetric])
    ultimately show ?thesis by simp
  qed
  have same: "f = q" if "q = of_int j + 1 / 2" for j
  proof -
    define H where "H = (2 * j + 1) * 2 ^ nat (- e - 1)"
    have H: "(of_int j + 1 / 2 :: rat) / 2 powi e = of_int H"
      unfolding H_def by (rule half_integer_scaled[OF e1])
    have "M = H" unfolding M_def that H by simp
    then have "f = of_int H * 2 powi e" by (simp add: f_def)
    also have "\<dots> = of_int j + 1 / 2" using pe by (simp add: H[symmetric])
    finally show ?thesis using that by simp
  qed
  have a: "of_int \<lfloor>q\<rfloor> \<le> q" and b: "q < of_int \<lfloor>q\<rfloor> + 1" by linarith+
  consider "q - of_int \<lfloor>q\<rfloor> < 1 / 2" | "1 / 2 < q - of_int \<lfloor>q\<rfloor>"
    | "q - of_int \<lfloor>q\<rfloor> = 1 / 2" by linarith
  then have "round_half_even f = round_half_even q"
  proof cases
    case 1
    then have rq: "round_half_even q = \<lfloor>q\<rfloor>" by (simp add: round_half_even_def Let_def)
    have "f < of_int \<lfloor>q\<rfloor> + 1 / 2" by (rule below) (use 1 in linarith)
    moreover have "of_int (\<lfloor>q\<rfloor> - 1) + 1 / 2 < f"
    proof (rule above)
      have "(of_int (\<lfloor>q\<rfloor> - 1) :: rat) = of_int \<lfloor>q\<rfloor> - 1" by simp
      with a show "of_int (\<lfloor>q\<rfloor> - 1) + 1 / 2 < q" by linarith
    qed
    ultimately have "round_half_even f = \<lfloor>q\<rfloor>" by (intro round_half_even_eqI) simp_all
    with rq show ?thesis by simp
  next
    case 2
    then have rq: "round_half_even q = \<lfloor>q\<rfloor> + 1" by (simp add: round_half_even_def Let_def)
    have "of_int \<lfloor>q\<rfloor> + 1 / 2 < f" by (rule above) (use 2 in linarith)
    moreover have "f < of_int (\<lfloor>q\<rfloor> + 1) + 1 / 2"
    proof (rule below)
      have "(of_int (\<lfloor>q\<rfloor> + 1) :: rat) = of_int \<lfloor>q\<rfloor> + 1" by simp
      with b show "q < of_int (\<lfloor>q\<rfloor> + 1) + 1 / 2" by linarith
    qed
    ultimately have "round_half_even f = \<lfloor>q\<rfloor> + 1" by (intro round_half_even_eqI) simp_all
    with rq show ?thesis by simp
  next
    case 3
    then have "q = of_int \<lfloor>q\<rfloor> + 1 / 2" by simp
    then have "f = q" by (rule same)
    then show ?thesis by simp
  qed
  with fin that show ?thesis by blast
qed

lemma to_double_zero [simp]: "to_double 0 = Finite 0"
  by (simp add: to_double_def)

lemma to_double_neg_finite:
  assumes "q < 0" "to_double (- q) = Finite r"
  shows "to_double q = Finite (- r)"
  using assms by (simp add: to_double_def Let_def split: if_splits)

lemma to_double_nonpos:
  assumes "q \<le> 0" "- (2 ^ 52) < q"
  obtains f :: rat where "to_double q = Finite f" "f \<le> 0"
proof (cases "q = 0")
  case True
  then show ?thesis using that by simp
next
  case False
  with assms have neg: "q < 0" and pos: "0 < - q" and lt: "- q < 2 ^ 52" by simp_all
  from to_double_below_two_52(2)[OF pos lt] obtain r where r: "to_double (- q) = Finite r"
    by blast
  have "0 \<le> r" using to_double_nonneg[OF _ r] pos by simp
  with to_double_neg_finite[OF neg r] that show ?thesis by simp
qed

lemma double_mantissa:
  assumes "0 < x" "x < 2 ^ 52" "to_double x = Finite x"
  obtains Mx Ex :: int where "x = of_int Mx * 2 powi Ex" "Ex \<le> - 1" "0 < Mx" "Mx < 2 ^ 53"
proof -
  define e where "e = max (ilog2 x - 52) (- 1074)"
  define M where "M = round_half_even (x / 2 powi e)"
  note td = to_double_below_two_52[OF assms(1,2), folded e_def, folded M_def]
  have pe: "(0::rat) < 2 powi e" by (simp add: zero_less_power_int)
  have x: "x = of_int M * 2 powi e" using td(2) assms(3) by simp
  then have sc: "x / 2 powi e = of_int M" using pe by simp
  have "(of_int M :: rat) < 2 ^ 53"
    using scaled_below_two_53[OF assms(1), folded e_def] sc by simp
  then have "M < 2 ^ 53" by (metis of_int_less_iff of_int_numeral of_int_power)
  moreover have "0 < M"
  proof -
    have "(0::rat) < of_int M" using assms(1) pe sc by (metis zero_less_divide_iff)
    then show ?thesis by simp
  qed
  ultimately show ?thesis using that[OF x td(1)] by simp
qed

lemma to_double_int_exact:
  assumes "0 < n" "n < 2 ^ 52"
  shows "to_double (of_int n) = Finite (of_int n)"
proof -
  define q :: rat where "q = of_int n"
  have qpos: "0 < q" using assms(1) by (simp add: q_def)
  have "q < of_int (2 ^ 52)" unfolding q_def using assms(2) by (simp only: of_int_less_iff)
  then have q52: "q < 2 ^ 52" by simp
  define e where "e = max (ilog2 q - 52) (- 1074)"
  note td = to_double_below_two_52[OF qpos q52, folded e_def]
  have pe: "(0::rat) < 2 powi e" by (simp add: zero_less_power_int)
  have "(1::rat) / 2 powi e = 2 powi (- e)" by (simp add: power_int_minus divide_inverse)
  also have "\<dots> = 2 ^ nat (- e)" using td(1) by (simp add: power_int_def)
  finally have "q / 2 powi e = of_int (n * 2 ^ nat (- e))"
    by (simp add: q_def divide_inverse)
  then have "round_half_even (q / 2 powi e) = n * 2 ^ nat (- e)"
    by (simp only: round_half_even_of_int)
  moreover have "of_int (n * 2 ^ nat (- e)) * 2 powi e = q"
    using \<open>q / 2 powi e = of_int (n * 2 ^ nat (- e))\<close> pe by (metis nonzero_divide_eq_eq less_irrefl)
  ultimately show ?thesis using td(2) by (simp add: q_def)
qed

lemma quotient_round:
  fixes x :: rat and u :: int
  assumes u: "0 < u" and x52: "\<bar>x\<bar> < 2 ^ 52"
    and rep: "(\<exists>n. x = of_int n) \<or> to_double x = Finite x"
  obtains f :: rat where "to_double (x / of_int u) = Finite f"
    "max (round_half_even f * u) u = max (round_half_even (x / of_int u) * u) u"
proof (cases "0 < x")
  case True
  obtain Mx Ex :: int where m: "x = of_int Mx * 2 powi Ex" "Ex \<le> - 1" "0 < Mx" "Mx < 2 ^ 53"
  proof (cases "\<exists>n. x = of_int n")
    case True
    then obtain n :: int where n: "x = of_int n" by blast
    with \<open>0 < x\<close> have npos: "0 < n" by simp
    have "(of_int n :: rat) < of_int (2 ^ 52)" using x52 n \<open>0 < x\<close> by simp
    then have "n < 2 ^ 52" by (simp only: of_int_less_iff)
    then have "2 * n < 2 ^ 53" by simp
    moreover have "x = of_int (2 * n) * 2 powi (- 1)" by (simp add: n)
    ultimately show ?thesis using that[of "2 * n" "- 1"] npos by simp
  next
    case False
    with rep have dx: "to_double x = Finite x" by simp
    have "x < 2 ^ 52" using x52 by simp
    from double_mantissa[OF \<open>0 < x\<close> this dx] that show ?thesis by blast
  qed
  from round_of_to_double[OF m u refl] obtain f :: rat where
    "to_double (x / of_int u) = Finite f" "round_half_even f = round_half_even (x / of_int u)"
    by blast
  then show ?thesis using that by simp
next
  case False
  have upos: "(1::rat) \<le> of_int u" using u by (metis of_int_1_le_iff int_one_le_iff_zero_less)
  from False have q0: "x / of_int u \<le> 0" using upos by (simp add: divide_le_0_iff)
  have "x * of_int u \<le> x * 1"
    by (rule mult_left_mono_neg) (use False upos in simp_all)
  then have "x \<le> x / of_int u" using upos by (simp add: le_divide_eq)
  with x52 have "- (2 ^ 52) < x / of_int u" by simp
  from to_double_nonpos[OF q0 this] obtain f :: rat where
    f: "to_double (x / of_int u) = Finite f" "f \<le> 0" by blast
  have "round_half_even f * u \<le> 0"
    using round_half_even_nonpos[OF f(2)] u by (simp add: mult_le_0_iff)
  moreover have "round_half_even (x / of_int u) * u \<le> 0"
    using round_half_even_nonpos[OF q0] u by (simp add: mult_le_0_iff)
  ultimately have "max (round_half_even f * u) u = u"
    and "max (round_half_even (x / of_int u) * u) u = u"
    using u by linarith+
  then have "max (round_half_even f * u) u = max (round_half_even (x / of_int u) * u) u"
    by simp
  with f(1) that show ?thesis by blast
qed

text \<open>
  The result of rounding lies within half a unit in the last place of the rational.
\<close>

lemma to_double_close:
  assumes "0 < q" "to_double q = Finite f"
  shows "\<bar>q - f\<bar> \<le> 2 powi max (ilog2 q - 52) (- 1074) / 2"
proof -
  define e where "e = max (ilog2 q - 52) (- 1074)"
  define M where "M = round_half_even (q / 2 powi e)"
  have pe: "(0::rat) < 2 powi e" by (simp add: zero_less_power_int)
  have f: "f = of_int M * 2 powi e"
    using assms by (simp add: to_double_def Let_def e_def M_def split: if_splits)
  have "\<bar>q / 2 powi e - of_int M\<bar> \<le> 1 / 2" unfolding M_def by (rule round_half_even_close)
  then have "\<bar>q / 2 powi e - of_int M\<bar> * 2 powi e \<le> 1 / 2 * 2 powi e"
    using pe by (intro mult_right_mono) simp_all
  moreover have "\<bar>q / 2 powi e - of_int M\<bar> * 2 powi e = \<bar>q - f\<bar>"
  proof -
    have "\<bar>q / 2 powi e - of_int M\<bar> * 2 powi e = \<bar>(q / 2 powi e - of_int M) * 2 powi e\<bar>"
      using pe by (simp add: abs_mult)
    also have "(q / 2 powi e - of_int M) * 2 powi e = q - f"
      using pe by (simp add: f algebra_simps)
    finally show ?thesis .
  qed
  ultimately show ?thesis unfolding e_def by simp
qed

text \<open>
  The integer square root is the floor of the root, and \<open>sqrt_double\<close> yields the 53-bit
  mantissa whose distance to the root of the scaled argument is at most one half.
\<close>

lemma isqrt_aux_correct:
  assumes "0 \<le> r" "r * r \<le> n" "n < (r + 2 ^ k) * (r + 2 ^ k)"
  shows "0 \<le> isqrt_aux k n r \<and> isqrt_aux k n r * isqrt_aux k n r \<le> n
         \<and> n < (isqrt_aux k n r + 1) * (isqrt_aux k n r + 1)"
  using assms
proof (induction k arbitrary: r)
  case 0
  then show ?case by simp
next
  case (Suc k)
  show ?case
  proof (cases "(r + 2 ^ k) * (r + 2 ^ k) \<le> n")
    case True
    have "n < (r + 2 ^ k + 2 ^ k) * (r + 2 ^ k + 2 ^ k)"
      using Suc.prems(3) by (simp add: algebra_simps)
    then show ?thesis
      using Suc.IH[of "r + 2 ^ k"] True Suc.prems(1) by (simp add: Let_def)
  next
    case False
    then show ?thesis
      using Suc.IH[of r] Suc.prems(1,2) by (simp add: Let_def)
  qed
qed

lemma isqrt_correct:
  assumes "0 \<le> n"
  shows "0 \<le> isqrt n" "isqrt n * isqrt n \<le> n" "n < (isqrt n + 1) * (isqrt n + 1)"
proof -
  have "n < 2 ^ nat (bitlen n)"
  proof (cases "n = 0")
    case True
    then show ?thesis by simp
  next
    case False
    with assms show ?thesis using bitlen_bounds[of n] by simp
  qed
  also have "(2::int) ^ nat (bitlen n) \<le> 2 ^ nat (bitlen n) * 2 ^ nat (bitlen n)"
    by (simp add: self_le_power)
  finally have "n < (0 + 2 ^ nat (bitlen n)) * (0 + 2 ^ nat (bitlen n))" by simp
  from isqrt_aux_correct[OF _ _ this] assms
  show "0 \<le> isqrt n" "isqrt n * isqrt n \<le> n" "n < (isqrt n + 1) * (isqrt n + 1)"
    by (simp_all add: isqrt_def)
qed

lemma sqrt_double_nearest:
  assumes "0 < x"
  shows "\<exists>m. sqrt_double x = of_int m * 2 powi (ilog2 x div 2 - 52)
           \<and> 2 ^ 52 \<le> m \<and> m \<le> 2 ^ 53
           \<and> (of_int m - 1 / 2)\<^sup>2 \<le> x / 4 powi (ilog2 x div 2 - 52)
           \<and> x / 4 powi (ilog2 x div 2 - 52) \<le> (of_int m + 1 / 2)\<^sup>2"
proof -
  define L where "L = ilog2 x"
  define e where "e = L div 2 - 52"
  define y where "y = x / 4 powi e"
  define t where "t = isqrt \<lfloor>y\<rfloor>"
  define m where "m = (if (of_int t + 1 / 2)\<^sup>2 < y then t + 1 else t)"
  have four: "(4::rat) powi e = 2 powi (2 * e)"
  proof -
    have "(4::rat) = 2 powi 2" by simp
    then have "(4::rat) powi e = (2 powi 2) powi e" by simp
    also have "\<dots> = 2 powi (2 * e)" by (simp add: power_int_mult)
    finally show ?thesis .
  qed
  have p4: "(0::rat) < 4 powi e" by (simp add: zero_less_power_int)
  have lo: "2 ^ 104 \<le> y"
  proof -
    have "(2::rat) powi (2 * e) \<le> 2 powi (L - 104)"
      by (rule power_int_increasing) (auto simp: e_def)
    then have "2 ^ 104 * (4::rat) powi e \<le> 2 ^ 104 * 2 powi (L - 104)"
      by (simp add: four)
    also have "\<dots> = 2 powi L" by (simp add: power_int_diff)
    also have "\<dots> \<le> x" unfolding L_def by (rule ilog2_bounds(1)[OF assms])
    finally show ?thesis unfolding y_def using p4 by (simp add: le_divide_eq)
  qed
  have hi: "y < 2 ^ 106"
  proof -
    have "x < 2 powi (L + 1)" unfolding L_def by (rule ilog2_bounds(2)[OF assms])
    also have "\<dots> = 2 ^ 106 * 2 powi (L - 105)" by (simp add: power_int_diff power_int_add)
    also have "\<dots> \<le> 2 ^ 106 * 2 powi (2 * e)"
    proof -
      have "(2::rat) powi (L - 105) \<le> 2 powi (2 * e)"
        by (rule power_int_increasing) (auto simp: e_def)
      then show ?thesis by simp
    qed
    finally show ?thesis unfolding y_def using p4 by (simp add: divide_less_eq four)
  qed
  have fl0: "0 \<le> \<lfloor>y\<rfloor>" using lo by simp
  note sq = isqrt_correct[OF fl0, folded t_def]
  have tl: "of_int (t * t) \<le> y"
  proof -
    have "(of_int (t * t) :: rat) \<le> of_int \<lfloor>y\<rfloor>" using sq(2) by (simp only: of_int_le_iff)
    also have "\<dots> \<le> y" by simp
    finally show ?thesis .
  qed
  have tu: "y < of_int ((t + 1) * (t + 1))"
  proof -
    have "\<lfloor>y\<rfloor> + 1 \<le> (t + 1) * (t + 1)" using sq(3) by simp
    then have "(of_int (\<lfloor>y\<rfloor> + 1) :: rat) \<le> of_int ((t + 1) * (t + 1))"
      by (simp only: of_int_le_iff)
    moreover have "y < of_int (\<lfloor>y\<rfloor> + 1)" by linarith
    ultimately show ?thesis by linarith
  qed
  have t52: "2 ^ 52 \<le> t"
  proof (rule ccontr)
    assume "\<not> 2 ^ 52 \<le> t"
    then have "t + 1 \<le> 2 ^ 52" by simp
    then have "(t + 1) * (t + 1) \<le> 2 ^ 52 * 2 ^ 52"
      using sq(1) by (intro mult_mono) simp_all
    then have "(of_int ((t + 1) * (t + 1)) :: rat) \<le> of_int (2 ^ 52 * 2 ^ 52)"
      by (simp only: of_int_le_iff)
    with tu lo show False by simp
  qed
  have t53: "t < 2 ^ 53"
  proof (rule ccontr)
    assume "\<not> t < 2 ^ 53"
    then have "2 ^ 53 \<le> t" by simp
    then have "2 ^ 53 * 2 ^ 53 \<le> t * t" by (intro mult_mono) simp_all
    then have "(of_int (2 ^ 53 * 2 ^ 53) :: rat) \<le> of_int (t * t)"
      by (simp only: of_int_le_iff)
    with tl hi show False by simp
  qed
  have tr: "(1::rat) \<le> of_int t" using t52 by simp
  have e2: "(of_int t + 1 / 2 :: rat)\<^sup>2 = of_int (t * t) + of_int t + 1 / 4"
    by (simp add: power2_eq_square algebra_simps)
  have br: "(of_int m - 1 / 2)\<^sup>2 \<le> y \<and> y \<le> (of_int m + 1 / 2)\<^sup>2"
  proof (cases "(of_int t + 1 / 2)\<^sup>2 < y")
    case True
    then have m: "m = t + 1" by (simp add: m_def)
    have a: "(of_int m - 1 / 2 :: rat) = of_int t + 1 / 2" by (simp add: m)
    have b: "(of_int m + 1 / 2 :: rat)\<^sup>2 = of_int ((t + 1) * (t + 1)) + of_int (t + 1) + 1 / 4"
      by (simp add: m power2_eq_square algebra_simps)
    have c: "(0::rat) \<le> of_int (t + 1)" using sq(1) by simp
    have "(of_int m - 1 / 2)\<^sup>2 \<le> y" using True by (simp only: a)
    moreover have "y \<le> (of_int m + 1 / 2)\<^sup>2" using tu c by (simp only: b)
    ultimately show ?thesis by simp
  next
    case False
    then have m: "m = t" by (simp add: m_def)
    have "(of_int t - 1 / 2 :: rat)\<^sup>2 = of_int (t * t) - of_int t + 1 / 4"
      by (simp add: power2_eq_square algebra_simps)
    then have "(of_int t - 1 / 2 :: rat)\<^sup>2 \<le> of_int (t * t)" using tr by simp
    then show ?thesis using False tl by (simp add: m)
  qed
  have "sqrt_double x = of_int m * 2 powi e"
    by (simp add: sqrt_double_def Let_def m_def t_def y_def e_def L_def)
  moreover have "2 ^ 52 \<le> m \<and> m \<le> 2 ^ 53" using t52 t53 by (simp add: m_def)
  ultimately show ?thesis using br unfolding y_def e_def L_def by blast
qed

section \<open>Worked examples\<close>

text \<open>
  The stages of the area-based sizer at one megapixel and the ratio \<open>1.5\<close>, and the
  edge-based sizer at the edge 1000 and the same ratio, evaluated through the code
  equations.
\<close>

lemma pixel_edge_example: "area_pixel_edge default_args (Finite 1) = Inr 1024"
  by code_simp

lemma area_target_example: "area_target default_args (Finite (3 / 2)) 1024 = Inr (1280, 832)"
  by code_simp

lemma area_intermediary_example:
  "area_intermediary (Finite (3 / 2)) (1280, 832) = Inr (1248, 832)"
  by code_simp

lemma aspect_example:
  "calculate_image_aspect_ratio default_args (ASize (1280, 832)) 2
     = Inr (Finite (1733885856537641 / 1125899906842624))"
  by code_simp

lemma area_repair_example:
  "area_repair (Finite (3 / 2)) (1280, 832) (1248, 832) = Inr (1280, 853)"
  by code_simp

lemma edge_example:
  "calculate_new_size_by_pixel_edge default_args (VFloat (Finite (3 / 2))) (VInt 1000) (2000, 1000)
     = Inr ((1472, 1024), (1524, 1024), Finite (3242591731706757 / 2251799813685248))"
  by code_simp



lemma rounder_example_int: "round_to_nearest_multiple default_args (PyInt 1000) = Inr 1024"
  by code_simp

lemma double_example: "to_double (2509 / 2) = Finite (2509 / 2)"
  by code_simp

lemma rounder_large_example:
  "round_to_nearest_multiple \<lparr>aspect_bucket_alignment = 1, aspect_bucket_rounding = None\<rparr>
     (PyInt 9007199254740993) = Inr 9007199254740992"
  by code_simp

lemma area_repair_hit_example:
  "area_repair (Finite (3 / 2)) (4096, 4096) (1248, 832) = Inr (4096, 2730)"
  by code_simp

section \<open>Properties of the oversize checker\<close>



section \<open>Properties of the aspect ratio calculator\<close>

text \<open>
  Claim C6, as stated, fails: a size with a negative width and a non-zero height is not
  rejected. The pair \<open>(-4, 2)\<close> yields the ratio \<open>-2.0\<close>.
\<close>

theorem aspect_ratio_negative_width_counterexample:
  "calculate_image_aspect_ratio default_args (ASize (- 4, 2)) 2 = Inr (Finite (- 2))"
  by code_simp

lemma py_round_ndigits_no_zero_division: "py_round_ndigits x n \<noteq> Inl ZeroDivisionError"
  by (auto simp: py_round_ndigits_def split: pyfloat.splits)

lemma int_truediv_zero_division: "int_truediv w h = Inl ZeroDivisionError \<longleftrightarrow> h = 0"
  by (auto simp: int_truediv_def split: pyfloat.splits)

text \<open>
  Claim C6, amended. On a size pair, or an object carrying one, the calculator raises
  ZeroDivisionError exactly when the height is zero: Python's own division by zero is
  the failure, and no other dimension is checked.
\<close>

theorem aspect_ratio_fails_on_zero_height:
  "(calculate_image_aspect_ratio a (ASize (w, h)) rounding = Inl ZeroDivisionError) = (h = 0)
   \<and> (calculate_image_aspect_ratio a (AnImage (w, h)) rounding = Inl ZeroDivisionError) = (h = 0)"
  using int_truediv_zero_division[of w h]
  by (cases "int_truediv w h")
     (auto simp: calculate_image_aspect_ratio_def Let_def py_round_ndigits_no_zero_division)

section \<open>Properties of the alignment rounder\<close>

text \<open>
  Whatever it returns under a positive unit is a multiple of the unit and at least the
  unit; a float it accepts is finite.
\<close>

lemma rounder_multiple:
  assumes "round_to_nearest_multiple a v = Inr k" "0 < aspect_bucket_alignment a"
  shows "aspect_bucket_alignment a dvd k" "aspect_bucket_alignment a \<le> k"
  using assms by (auto simp: round_to_nearest_multiple_def Let_def and_then_eq_Inr max_def)

lemma rounder_finite_arg:
  assumes "round_to_nearest_multiple a (PyFloat x) = Inr k"
  shows "\<exists>r. x = Finite r"
proof -
  from assms obtain f q where f: "float_of_int (aspect_bucket_alignment a) = Inr f"
    and q: "float_div x f = Inr q" and k: "py_round q \<noteq> Inl ValueError \<and> py_round q \<noteq> Inl OverflowError"
    by (auto simp: round_to_nearest_multiple_def Let_def py_truediv_def to_float_def and_then_eq_Inr)
  from float_of_int_Finite[OF f] obtain b where b: "f = Finite b" by blast
  show ?thesis using q k b by (cases x) (auto simp: py_round_def split: if_splits)
qed

text \<open>The rounding of the exact quotient, clamped, is a nearest positive multiple.\<close>

lemma nearest_of_round:
  fixes v :: rat and u :: int
  assumes u: "0 < u"
  shows "nearest_positive_multiple u v (max (round_half_even (v / of_int u) * u) u)"
proof -
  define r where "r = round_half_even (v / of_int u)"
  have upos: "(0::rat) < of_int u" using u by simp
  have "\<bar>v / of_int u - of_int r\<bar> \<le> 1 / 2" unfolding r_def by (rule round_half_even_close)
  then have "\<bar>v / of_int u - of_int r\<bar> * of_int u \<le> 1 / 2 * of_int u"
    using upos by (simp add: mult_right_mono)
  moreover have "\<bar>v / of_int u - of_int r\<bar> * of_int u = \<bar>v - of_int (r * u)\<bar>"
  proof -
    have "\<bar>v / of_int u - of_int r\<bar> * of_int u = \<bar>(v / of_int u - of_int r) * of_int u\<bar>"
      using upos by (simp add: abs_mult)
    also have "(v / of_int u - of_int r) * of_int u = v - of_int (r * u)"
      using upos by (simp add: algebra_simps)
    finally show ?thesis .
  qed
  ultimately have close: "\<bar>v - of_int (r * u)\<bar> \<le> of_int u / 2" by simp
  show ?thesis
  proof (cases "1 \<le> r")
    case True
    then have "u \<le> r * u" using u by simp
    then have k: "max (r * u) u = r * u" by simp
    have "\<bar>v - of_int (r * u)\<bar> \<le> \<bar>v - of_int j\<bar>" if j: "0 < j" "u dvd j" for j
    proof (cases "j = r * u")
      case True
      then show ?thesis by simp
    next
      case False
      from j(2) obtain i where i: "j = u * i" by (auto simp: dvd_def)
      with False have "i \<noteq> r" by auto
      then have "1 \<le> \<bar>i - r\<bar>" by simp
      then have "u * 1 \<le> u * \<bar>i - r\<bar>" using u by (intro mult_left_mono) simp_all
      also have "\<dots> = \<bar>j - r * u\<bar>"
      proof -
        have "j - r * u = u * (i - r)" by (simp add: i algebra_simps)
        then have "\<bar>j - r * u\<bar> = \<bar>u\<bar> * \<bar>i - r\<bar>" by (simp only: abs_mult)
        with u show ?thesis by simp
      qed
      finally have "u \<le> \<bar>j - r * u\<bar>" by simp
      then have "(of_int u :: rat) \<le> of_int \<bar>j - r * u\<bar>" by (simp only: of_int_le_iff)
      then have "(of_int u :: rat) \<le> \<bar>of_int j - of_int (r * u)\<bar>" by simp
      with close show ?thesis by linarith
    qed
    then show ?thesis using True u unfolding nearest_positive_multiple_def r_def[symmetric] k
      by simp
  next
    case False
    then have r0: "r \<le> 0" by simp
    then have "r * u \<le> 0" using u by (simp add: mult_le_0_iff)
    then have k: "max (r * u) u = u" using u by simp
    have "v / of_int u \<le> of_int r + 1 / 2"
      using round_half_even_close[of "v / of_int u"] unfolding r_def[symmetric] by linarith
    moreover have "(of_int r :: rat) \<le> 0" using r0 by simp
    ultimately have "v / of_int u \<le> 1 / 2" by linarith
    then have vle: "v \<le> of_int u / 2" using upos by (simp add: divide_le_eq)
    have "\<bar>v - of_int u\<bar> \<le> \<bar>v - of_int j\<bar>" if j: "0 < j" "u dvd j" for j
    proof -
      have "u \<le> j" using j u by (simp add: zdvd_imp_le)
      then have "(of_int u :: rat) \<le> of_int j" by simp
      with vle upos show ?thesis by linarith
    qed
    then show ?thesis using u unfolding nearest_positive_multiple_def r_def[symmetric] k
      by simp
  qed
qed

lemma rounder_formula:
  assumes "round_to_nearest_multiple a v = Inr k"
  shows "\<exists>q. py_truediv v (PyInt (aspect_bucket_alignment a)) = Inr (Finite q)
           \<and> k = max (round_half_even q * aspect_bucket_alignment a) (aspect_bucket_alignment a)"
proof -
  from assms obtain x n where x: "py_truediv v (PyInt (aspect_bucket_alignment a)) = Inr x"
    and n: "py_round x = Inr n"
    and k: "k = max (n * aspect_bucket_alignment a) (aspect_bucket_alignment a)"
    by (auto simp: round_to_nearest_multiple_def Let_def and_then_eq_Inr)
  from n obtain q where "x = Finite q" "n = round_half_even q"
    by (cases x) (auto simp: py_round_def)
  with x k show ?thesis by simp
qed

lemma rounder_exact:
  assumes u: "0 < aspect_bucket_alignment a" "aspect_bucket_alignment a < 2 ^ 52"
    and w: "exactly_divided w"
  shows "round_to_nearest_multiple a w
     = Inr (max (round_half_even (num_value w / of_int (aspect_bucket_alignment a))
                   * aspect_bucket_alignment a) (aspect_bucket_alignment a))"
proof -
  define un where "un = aspect_bucket_alignment a"
  have un: "0 < un" "un < 2 ^ 52" using u by (simp_all add: un_def)
  have x52: "\<bar>num_value w\<bar> < 2 ^ 52"
  proof (cases w)
    case (PyInt n)
    with w have "\<bar>n\<bar> < 2 ^ 52" by (simp add: exactly_divided_def)
    then have "(of_int \<bar>n\<bar> :: rat) < of_int (2 ^ 52)" by (simp only: of_int_less_iff)
    then show ?thesis using PyInt by (simp add: num_value_def)
  next
    case (PyFloat x)
    with w show ?thesis by (cases x) (simp_all add: exactly_divided_def num_value_def)
  qed
  have rep: "(\<exists>n. num_value w = of_int n) \<or> to_double (num_value w) = Finite (num_value w)"
  proof (cases w)
    case (PyInt n)
    then show ?thesis by (auto simp: num_value_def)
  next
    case (PyFloat x)
    with w show ?thesis by (cases x) (simp_all add: exactly_divided_def num_value_def)
  qed
  from quotient_round[OF un(1) x52 rep] obtain f :: rat where
    f: "to_double (num_value w / of_int un) = Finite f"
    and m: "max (round_half_even f * un) un = max (round_half_even (num_value w / of_int un) * un) un"
    by blast
  have "py_truediv w (PyInt un) = Inr (Finite f)"
  proof (cases w)
    case (PyInt n)
    then show ?thesis using f un(1) by (simp add: py_truediv_def int_truediv_def num_value_def)
  next
    case (PyFloat x)
    with w obtain r where r: "x = Finite r" by (cases x) (simp_all add: exactly_divided_def)
    have "float_of_int un = Inr (Finite (of_int un))"
      using to_double_int_exact[OF un] by (simp add: float_of_int_def)
    then show ?thesis using f un(1) PyFloat r
      by (simp add: py_truediv_def to_float_def num_value_def)
  qed
  then show ?thesis
    using m by (simp add: round_to_nearest_multiple_def Let_def py_round_def un_def)
qed

text \<open>
  Claim C5, as stated, fails: the quotient is a float, and for a large value it is not
  the exact quotient. At the unit 1 the int \<open>2 ^ 53 + 1\<close> is rounded to \<open>2 ^ 53\<close>, although
  it is a positive multiple of the unit itself.
\<close>

theorem rounder_large_int_counterexample:
  "round_to_nearest_multiple \<lparr>aspect_bucket_alignment = 1, aspect_bucket_rounding = None\<rparr>
     (PyInt 9007199254740993) = Inr 9007199254740992
   \<and> \<not> nearest_positive_multiple 1 9007199254740993 9007199254740992"
proof -
  have "\<not> nearest_positive_multiple 1 9007199254740993 9007199254740992"
    unfolding nearest_positive_multiple_def
    by (auto intro!: exI[of _ "9007199254740993"])
  with rounder_large_example show ?thesis by simp
qed

text \<open>
  Claim C5, amended. Under a positive unit, whatever the rounder returns for an int or a
  float is \<open>round(value / unit) * unit\<close> clamped below at the unit, with the float quotient
  of the code; it is a multiple of the unit and at least the unit. For an int, or a
  float that is a binary64 value, of magnitude below \<open>2 ^ 52\<close> and a unit below \<open>2 ^ 52\<close>, the
  rounder returns, the float quotient rounds as the exact one, and the result is the
  nearest positive multiple of the unit to the value, a tie going to the even multiple.
\<close>

theorem rounder_nearest_multiple:
  "0 < aspect_bucket_alignment a \<longrightarrow>
     (round_to_nearest_multiple a v = Inr k \<longrightarrow>
        aspect_bucket_alignment a dvd k \<and> aspect_bucket_alignment a \<le> k
        \<and> (\<exists>q. py_truediv v (PyInt (aspect_bucket_alignment a)) = Inr (Finite q)
               \<and> k = max (round_half_even q * aspect_bucket_alignment a)
                        (aspect_bucket_alignment a)))
     \<and> (aspect_bucket_alignment a < 2 ^ 52 \<and> exactly_divided w \<longrightarrow>
          round_to_nearest_multiple a w
            = Inr (max (round_half_even (num_value w / of_int (aspect_bucket_alignment a))
                          * aspect_bucket_alignment a) (aspect_bucket_alignment a))
          \<and> nearest_positive_multiple (aspect_bucket_alignment a) (num_value w)
               (max (round_half_even (num_value w / of_int (aspect_bucket_alignment a))
                       * aspect_bucket_alignment a) (aspect_bucket_alignment a)))"
  using rounder_multiple[of a v k] rounder_formula[of a v k] rounder_exact[of a w]
    nearest_of_round[of "aspect_bucket_alignment a" "num_value w"]
  by blast

theorem rounder_nearest_multiple_witness:
  "0 < aspect_bucket_alignment default_args
   \<and> round_to_nearest_multiple default_args (PyInt 1000) = Inr 1024
   \<and> aspect_bucket_alignment default_args dvd 1024
   \<and> aspect_bucket_alignment default_args < 2 ^ 52
   \<and> exactly_divided (PyFloat (Finite (2509 / 2)))
   \<and> round_to_nearest_multiple default_args (PyFloat (Finite (2509 / 2))) = Inr 1280
   \<and> nearest_positive_multiple 64 (2509 / 2) 1280"
proof -
  have r: "round_half_even (2509 / 128) = 20"
    by (rule round_half_even_eqI) simp_all
  show ?thesis
    using rounder_nearest_multiple[of default_args "PyInt 1000" 1024 "PyFloat (Finite (2509 / 2))"]
      rounder_example_int double_example
    by (simp add: default_args_def exactly_divided_def num_value_def r)
qed

section \<open>Properties of the sizers\<close>

text \<open>Past the early return the sizer is the sequence of its stages.\<close>

lemma area_unfold:
  assumes "aspect_ratio = VFloat ar \<or> aspect_ratio = VNpFloat64 ar" "ar \<noteq> Finite 1"
  shows "calculate_new_size_by_pixel_area a cache aspect_ratio megapixels original_size =
     and_then (area_pixel_edge a megapixels) (\<lambda>edge.
     and_then (area_target a ar edge) (\<lambda>ct.
     and_then (area_intermediary ar ct) (\<lambda>im.
     and_then (calculate_image_aspect_ratio a (ASize ct) 2) (\<lambda>r.
     and_then (area_repair ar (case cache (megapixels, r) of Some s \<Rightarrow> s | None \<Rightarrow> ct) im) (\<lambda>i.
     Inr (((case cache (megapixels, r) of Some s \<Rightarrow> s | None \<Rightarrow> ct), i, r),
          (case cache (megapixels, r) of None \<Rightarrow> cache((megapixels, r) \<mapsto> ct)
           | Some s \<Rightarrow> cache)))))))"
  using assms
  by (cases original_size)
     (auto simp add: calculate_new_size_by_pixel_area_def Let_def
      get_resolution_by_aspect_def set_resolution_by_aspect_def
      intro!: arg_cong2[where f = and_then] ext split: option.splits)

lemma area_example:
  "calculate_new_size_by_pixel_area default_args Map.empty (VFloat (Finite (3 / 2))) (Finite 1)
     original_size
   = Inr (((1280, 832), (1280, 853), Finite (1733885856537641 / 1125899906842624)),
          [(Finite 1, Finite (1733885856537641 / 1125899906842624)) \<mapsto> (1280, 832)])"
  by (subst area_unfold[where ar = "Finite (3 / 2)"])
     (simp_all add: pixel_edge_example area_target_example area_intermediary_example
        aspect_example area_repair_example)


text \<open>With the ratio \<open>1.0\<close> the sizer returns right after computing the edge.\<close>

lemma area_square:
  assumes "aspect_ratio = VFloat (Finite 1) \<or> aspect_ratio = VNpFloat64 (Finite 1)"
  shows "calculate_new_size_by_pixel_area a cache aspect_ratio megapixels original_size
     = and_then (area_pixel_edge a megapixels)
         (\<lambda>edge. Inr (((edge, edge), original_size, Finite 1), cache))"
  using assms by (cases original_size) (auto simp add: calculate_new_size_by_pixel_area_def)

lemma area_square_example:
  "calculate_new_size_by_pixel_area default_args Map.empty (VFloat (Finite 1)) (Finite 1) (100, 100)
     = Inr (((1024, 1024), (100, 100), Finite 1), Map.empty)"
  by (simp add: area_square pixel_edge_example)

text \<open>What a returned result says about the stages that produced it.\<close>

lemma edge_result:
  assumes "calculate_new_size_by_pixel_edge a ratio resolution original = Inr (t, i, r)"
  obtains W H ini where "round_to_nearest_multiple a (PyInt W) = Inr (fst t)"
    "round_to_nearest_multiple a (PyInt H) = Inr (snd t)" "i = edge_leeway ini t"
  using assms
  by (cases ratio; cases resolution)
     (auto simp: calculate_new_size_by_pixel_edge_def and_then_eq_Inr Let_def)

lemma area_target_result:
  assumes "area_target a ar edge = Inr ct"
  obtains x y where "round_to_nearest_multiple a (PyFloat x) = Inr (fst ct)"
    "round_to_nearest_multiple a (PyFloat y) = Inr (snd ct)"
  using assms unfolding area_target_def and_then_eq_Inr by auto

lemma area_miss_result:
  assumes r1: "calculate_new_size_by_pixel_area a cache aspect_ratio megapixels original
                 = Inr ((t, i, r), cache')"
    and ne: "aspect_ratio \<noteq> VFloat (Finite 1)" "aspect_ratio \<noteq> VNpFloat64 (Finite 1)"
    and miss: "cache (megapixels, r) = None"
  obtains ar edge im where "area_target a ar edge = Inr t" "area_intermediary ar t = Inr im"
    "area_repair ar t im = Inr i"
proof -
  obtain ar where ar: "aspect_ratio = VFloat ar \<or> aspect_ratio = VNpFloat64 ar"
    using r1 by (cases aspect_ratio) (simp_all add: calculate_new_size_by_pixel_area_def)
  have ar1: "ar \<noteq> Finite 1" using ar ne by auto
  from r1 obtain edge ct im where
    ct: "area_target a ar edge = Inr ct" and
    im: "area_intermediary ar ct = Inr im" and
    r: "calculate_image_aspect_ratio a (ASize ct) 2 = Inr r" and
    t: "t = (case cache (megapixels, r) of Some s \<Rightarrow> s | None \<Rightarrow> ct)" and
    i: "area_repair ar t im = Inr i"
    unfolding area_unfold[OF ar ar1] and_then_eq_Inr by auto
  from t miss have "t = ct" by simp
  with ct im i that show ?thesis by blast
qed

text \<open>
  A target is only computed for a finite positive ratio: the square root rejects a
  negative one, the division by the root rejects zero, and the rounder rejects what an
  infinite or undefined ratio produces.
\<close>

lemma area_target_positive_ratio:
  assumes "area_target a ar edge = Inr ct"
  obtains x where "ar = Finite x" "0 < x"
proof -
  from assms obtain s x y W where s: "py_sqrt ar = Inr s"
    and x: "py_mul_float (PyInt edge) s = Inr x"
    and W: "round_to_nearest_multiple a (PyFloat x) = Inr W"
    and y: "py_truediv (PyInt edge) (PyFloat s) = Inr y"
    unfolding area_target_def and_then_eq_Inr by auto
  from rounder_finite_arg[OF W] obtain xr where xr: "x = Finite xr" by blast
  from x obtain f where f: "float_of_int edge = Inr f" and x': "x = float_mul f s"
    by (auto simp: py_mul_float_def to_float_def and_then_eq_Inr)
  from float_of_int_Finite[OF f] obtain fr where fr: "f = Finite fr" by blast
  from s x' xr fr obtain v where v: "ar = Finite v" "0 \<le> v"
    by (cases ar) (auto simp: py_sqrt_def split: if_splits)
  have "v \<noteq> 0"
  proof
    assume "v = 0"
    with s v have "s = Finite 0" by (simp add: py_sqrt_def)
    with y f fr show False by (simp add: py_truediv_def to_float_def)
  qed
  with v that show ?thesis by force
qed

text \<open>
  The repair of the area-based sizer, applied to the intermediary computed from the same
  target, covers that target: one axis already equals the target's, the repair lifts the
  other to the target's and adds a non-negative amount to the first.
\<close>

lemma area_repair_covers:
  assumes x: "0 < x"
    and im: "area_intermediary (Finite x) t = Inr im"
    and i: "area_repair (Finite x) t im = Inr i"
  shows "covers i t"
proof -
  obtain Wt Ht where t: "t = (Wt, Ht)" by (cases t)
  obtain Wi Hi where imd: "im = (Wi, Hi)" by (cases im)
  show ?thesis
  proof (cases "Wt < Ht")
    case True
    with im t imd have Wi: "Wi = Wt"
      by (auto simp: area_intermediary_def Let_def and_then_eq_Inr)
    show ?thesis
    proof (cases "Ht > Hi")
      case False
      with i t imd Wi show ?thesis by (auto simp: area_repair_def covers_def)
    next
      case gt: True
      with i t imd Wi obtain p Wd where p: "py_mul_float (PyInt (Ht - Hi)) (Finite x) = Inr p"
        and Wd: "py_int p = Inr Wd" and res: "i = (Wi + Wd, Hi + (Ht - Hi))"
        by (auto simp: area_repair_def Let_def and_then_eq_Inr)
      have "0 \<le> Wd" using int_mul_float_trunc_nonneg[OF _ x p Wd] gt by simp
      then show ?thesis using res t Wi by (simp add: covers_def)
    qed
  next
    case False
    with im t imd have Hi: "Hi = Ht"
      by (auto simp: area_intermediary_def Let_def and_then_eq_Inr)
    show ?thesis
    proof (cases "Wt > Wi")
      case False
      with i t imd Hi show ?thesis by (auto simp: area_repair_def covers_def)
    next
      case gt: True
      with i t imd Hi obtain q Hd where q: "py_truediv (PyInt (Wt - Wi)) (PyFloat (Finite x)) = Inr q"
        and Hd: "py_int q = Inr Hd" and res: "i = (Wi + (Wt - Wi), Hi + Hd)"
        by (auto simp: area_repair_def Let_def and_then_eq_Inr)
      have "0 \<le> Hd" using int_div_float_trunc_nonneg[OF _ x q Hd] gt by simp
      then show ?thesis using res t Hi by (simp add: covers_def)
    qed
  qed
qed

lemma edge_leeway_covers: "covers (edge_leeway i t) t"
  by (cases i; cases t) (auto simp: edge_leeway_def covers_def Let_def)

text \<open>
  Claim C2. With the aspect ratio \<open>1.0\<close> the area-based sizer returns the square of the
  edge as the target, where the edge is the alignment rounder applied to
  \<open>int(sqrt(megapixels * 1e6))\<close>, the original size unchanged as the intermediary, the
  ratio \<open>1.0\<close>, and the cache as it was; it raises exactly when computing the edge raises.
  This holds for a \<open>float\<close> and for a \<open>numpy.float64\<close> ratio, for every megapixels value
  and every original size.
\<close>

theorem area_square_result:
  "calculate_new_size_by_pixel_area a cache (VFloat (Finite 1)) megapixels original_size
     = and_then (py_sqrt (float_mul megapixels (Finite 1000000))) (\<lambda>s.
       and_then (py_int s) (\<lambda>n.
       and_then (round_to_nearest_multiple a (PyInt n)) (\<lambda>edge.
       Inr (((edge, edge), original_size, Finite 1), cache))))
   \<and> calculate_new_size_by_pixel_area a cache (VNpFloat64 (Finite 1)) megapixels original_size
     = calculate_new_size_by_pixel_area a cache (VFloat (Finite 1)) megapixels original_size"
proof -
  have *: "and_then (and_then m f) g = and_then m (\<lambda>x. and_then (f x) g)" for m f g
    by (cases m) simp_all
  show ?thesis
    by (cases original_size)
       (simp add: calculate_new_size_by_pixel_area_def area_pixel_edge_def Let_def *)
qed





text \<open>
  Claim C1, as stated, fails: with the ratio \<open>1.0\<close> the area-based sizer returns the
  original size as the intermediary, whatever the target. An original of \<open>(100, 100)\<close>
  at one megapixel comes back under the target \<open>(1024, 1024)\<close>.
\<close>

theorem square_intermediary_counterexample:
  "calculate_new_size_by_pixel_area default_args Map.empty (VFloat (Finite 1)) (Finite 1) (100, 100)
     = Inr (((1024, 1024), (100, 100), Finite 1), Map.empty)
   \<and> \<not> covers (100, 100) (1024, 1024)"
  by (simp add: area_square_example covers_def)

text \<open>
  Claim C1, amended. Every result of the edge-based sizer has an intermediary that
  covers the target. So has every result of the area-based sizer for a ratio other than
  \<open>1.0\<close> when the cache holds no entry for the megapixels and the ratio of the result.
\<close>

theorem sizers_intermediary_covers_target:
  "(calculate_new_size_by_pixel_edge a ratio resolution original = Inr (t, i, r)
      \<longrightarrow> covers i t)
   \<and> (calculate_new_size_by_pixel_area a cache ratio' megapixels original' = Inr ((t', i', r'), cache')
        \<and> ratio' \<noteq> VFloat (Finite 1) \<and> ratio' \<noteq> VNpFloat64 (Finite 1)
        \<and> cache (megapixels, r') = None
      \<longrightarrow> covers i' t')"
proof (intro conjI impI)
  assume "calculate_new_size_by_pixel_edge a ratio resolution original = Inr (t, i, r)"
  then obtain ini where "i = edge_leeway ini t" by (rule edge_result)
  then show "covers i t" by (simp add: edge_leeway_covers)
next
  assume h: "calculate_new_size_by_pixel_area a cache ratio' megapixels original'
               = Inr ((t', i', r'), cache')
             \<and> ratio' \<noteq> VFloat (Finite 1) \<and> ratio' \<noteq> VNpFloat64 (Finite 1)
             \<and> cache (megapixels, r') = None"
  then obtain ar edge im where ct: "area_target a ar edge = Inr t'"
    and im: "area_intermediary ar t' = Inr im" and i: "area_repair ar t' im = Inr i'"
    using area_miss_result[of a cache ratio' megapixels original' t' i' r' cache'] by blast
  from area_target_positive_ratio[OF ct] obtain x where x: "ar = Finite x" "0 < x" by blast
  show "covers i' t'" using area_repair_covers[OF x(2)] im i x(1) by simp
qed

theorem sizers_intermediary_covers_target_witness:
  "calculate_new_size_by_pixel_edge default_args (VFloat (Finite (3 / 2))) (VInt 1000) (2000, 1000)
     = Inr ((1472, 1024), (1524, 1024), Finite (3242591731706757 / 2251799813685248))
   \<and> covers (1524, 1024) (1472, 1024)
   \<and> calculate_new_size_by_pixel_area default_args Map.empty (VFloat (Finite (3 / 2))) (Finite 1)
        (2000, 1000)
     = Inr (((1280, 832), (1280, 853), Finite (1733885856537641 / 1125899906842624)),
            [(Finite 1, Finite (1733885856537641 / 1125899906842624)) \<mapsto> (1280, 832)])
   \<and> VFloat (Finite (3 / 2)) \<noteq> VFloat (Finite 1)
   \<and> VFloat (Finite (3 / 2)) \<noteq> VNpFloat64 (Finite 1)
   \<and> (Map.empty :: resolution_cache) (Finite 1, Finite (1733885856537641 / 1125899906842624)) = None
   \<and> covers (1280, 853) (1280, 832)"
  using sizers_intermediary_covers_target[of default_args "VFloat (Finite (3 / 2))" "VInt 1000"
      "(2000, 1000)" "(1472, 1024)" "(1524, 1024)" "Finite (3242591731706757 / 2251799813685248)"
      Map.empty "VFloat (Finite (3 / 2))" "Finite 1" "(2000, 1000)" "(1280, 832)" "(1280, 853)"
      "Finite (1733885856537641 / 1125899906842624)"
      "[(Finite 1, Finite (1733885856537641 / 1125899906842624)) \<mapsto> (1280, 832)]"]
    edge_example area_example[of "(2000, 1000)"]
  by simp

text \<open>
  Claim C3, as stated, fails: the intermediary sizes are not rounded. The edge-based
  sizer at the edge 1000 and the ratio \<open>1.5\<close> returns the intermediary \<open>(1524, 1024)\<close>,
  and 1524 is no multiple of 64.
\<close>

theorem edge_intermediary_unaligned_counterexample:
  "calculate_new_size_by_pixel_edge default_args (VFloat (Finite (3 / 2))) (VInt 1000) (2000, 1000)
     = Inr ((1472, 1024), (1524, 1024), Finite (3242591731706757 / 2251799813685248))
   \<and> \<not> aligned default_args (1524, 1024)"
  using edge_example by (simp add: aligned_def default_args_def)

text \<open>
  Claim C3, amended. Under a positive alignment unit the target of every result of the
  edge-based sizer is aligned, and so is the target of every result of the area-based
  sizer that does not come from the cache: for the ratio \<open>1.0\<close>, and for another ratio
  when the cache holds no entry for the megapixels and the ratio of the result.
\<close>

theorem sizer_targets_aligned:
  "0 < aspect_bucket_alignment a \<longrightarrow>
     (calculate_new_size_by_pixel_edge a ratio resolution original = Inr (t, i, r)
        \<longrightarrow> aligned a t)
     \<and> (calculate_new_size_by_pixel_area a cache ratio' megapixels original' = Inr ((t', i', r'), cache')
          \<and> (ratio' = VFloat (Finite 1) \<or> ratio' = VNpFloat64 (Finite 1)
               \<or> cache (megapixels, r') = None)
        \<longrightarrow> aligned a t')"
proof (intro conjI impI)
  assume pos: "0 < aspect_bucket_alignment a"
  assume "calculate_new_size_by_pixel_edge a ratio resolution original = Inr (t, i, r)"
  then obtain W H where "round_to_nearest_multiple a (PyInt W) = Inr (fst t)"
    "round_to_nearest_multiple a (PyInt H) = Inr (snd t)" by (rule edge_result)
  then show "aligned a t"
    using rounder_multiple[OF _ pos] pos by (fastforce simp: aligned_def)
next
  assume pos: "0 < aspect_bucket_alignment a"
  assume h: "calculate_new_size_by_pixel_area a cache ratio' megapixels original'
               = Inr ((t', i', r'), cache')
             \<and> (ratio' = VFloat (Finite 1) \<or> ratio' = VNpFloat64 (Finite 1)
                  \<or> cache (megapixels, r') = None)"
  show "aligned a t'"
  proof (cases "ratio' = VFloat (Finite 1) \<or> ratio' = VNpFloat64 (Finite 1)")
    case True
    with h obtain edge where e: "area_pixel_edge a megapixels = Inr edge" and t: "t' = (edge, edge)"
      unfolding area_square[OF True] and_then_eq_Inr by auto
    from e obtain n where "round_to_nearest_multiple a (PyInt n) = Inr edge"
      unfolding area_pixel_edge_def Let_def and_then_eq_Inr by auto
    then show ?thesis using rounder_multiple[OF _ pos] pos t by (fastforce simp: aligned_def)
  next
    case False
    with h obtain ar edge where ct: "area_target a ar edge = Inr t'"
      using area_miss_result[of a cache ratio' megapixels original' t' i' r' cache'] by blast
    then obtain x y where "round_to_nearest_multiple a (PyFloat x) = Inr (fst t')"
      "round_to_nearest_multiple a (PyFloat y) = Inr (snd t')" by (rule area_target_result)
    then show ?thesis using rounder_multiple[OF _ pos] pos by (fastforce simp: aligned_def)
  qed
qed

theorem sizer_targets_aligned_witness:
  "0 < aspect_bucket_alignment default_args
   \<and> calculate_new_size_by_pixel_edge default_args (VFloat (Finite (3 / 2))) (VInt 1000) (2000, 1000)
     = Inr ((1472, 1024), (1524, 1024), Finite (3242591731706757 / 2251799813685248))
   \<and> aligned default_args (1472, 1024)
   \<and> calculate_new_size_by_pixel_area default_args Map.empty (VFloat (Finite (3 / 2))) (Finite 1)
        (2000, 1000)
     = Inr (((1280, 832), (1280, 853), Finite (1733885856537641 / 1125899906842624)),
            [(Finite 1, Finite (1733885856537641 / 1125899906842624)) \<mapsto> (1280, 832)])
   \<and> (Map.empty :: resolution_cache) (Finite 1, Finite (1733885856537641 / 1125899906842624)) = None
   \<and> aligned default_args (1280, 832)"
  using sizer_targets_aligned[of default_args "VFloat (Finite (3 / 2))" "VInt 1000"
      "(2000, 1000)" "(1472, 1024)" "(1524, 1024)" "Finite (3242591731706757 / 2251799813685248)"
      Map.empty "VFloat (Finite (3 / 2))" "Finite 1" "(2000, 1000)" "(1280, 832)" "(1280, 853)"
      "Finite (1733885856537641 / 1125899906842624)"
      "[(Finite 1, Finite (1733885856537641 / 1125899906842624)) \<mapsto> (1280, 832)]"]
    edge_example area_example[of "(2000, 1000)"]
  by (simp add: default_args_def)

text \<open>
  A further property of the area-based sizer. On a cache hit the target is the stored
  size, and the repair lifts one axis only: at one megapixel and the ratio \<open>1.5\<close>, a
  stored size of \<open>(4096, 4096)\<close> leaves the intermediary at \<open>(4096, 2730)\<close>, below the
  target in height.
\<close>

theorem area_cache_hit_uncovered:
  "calculate_new_size_by_pixel_area default_args
     [(Finite 1, Finite (1733885856537641 / 1125899906842624)) \<mapsto> (4096, 4096)]
     (VFloat (Finite (3 / 2))) (Finite 1) (2000, 1000)
   = Inr (((4096, 4096), (4096, 2730), Finite (1733885856537641 / 1125899906842624)),
          [(Finite 1, Finite (1733885856537641 / 1125899906842624)) \<mapsto> (4096, 4096)])
   \<and> \<not> covers (4096, 2730) (4096, 4096)"
  by (subst area_unfold[where ar = "Finite (3 / 2)"])
     (simp_all add: pixel_edge_example area_target_example area_intermediary_example
        aspect_example area_repair_hit_example covers_def)

text \<open>
  A further property of the edge-based sizer, the worked example of the specification:
  at the edge 1024 and the ratio \<open>1.5\<close> a landscape original gets the target
  \<open>(1536, 1024)\<close>, already aligned, the same size as the intermediary, and the ratio \<open>1.5\<close>.
\<close>

theorem edge_sizer_landscape_example:
  "calculate_new_size_by_pixel_edge default_args (VFloat (Finite (3 / 2))) (VInt 1024) (2000, 1000)
     = Inr ((1536, 1024), (1536, 1024), Finite (3 / 2))"
  by code_simp

end
